theory Spec2Isabelle
  imports Complex_Main "HOL-Library.Multiset" "HOL-Library.Sublist"
begin

section \<open>PatchCore anomaly detection notebook: data model\<close>

text \<open>
  The notebook \<^verbatim>\<open>code_scratch.ipynb\<close> works on PyTorch tensors and NumPy arrays of
  floating-point numbers. The embedding idealises every float as a \<^typ>\<open>real\<close>: rounding
  is not modelled, the structure of each computation is. A two-dimensional tensor (the
  patch matrix returned by the backbone, the memory bank, the distance matrix) is the list
  of its rows; the column count of a tensor with no rows is not represented. A
  four-dimensional activation tensor of batch size one is a record of its shape and of
  its entries.

  The exceptions the library calls raise are values: a failing cell returns \<open>Inl\<close>.
\<close>

datatype error = IndexError | RuntimeError | ValueError

type_synonym vec = "real list"
type_synonym matrix = "real list list"

record activation =
  channels :: nat
  height :: nat
  width :: nat
  entry :: "nat \<Rightarrow> nat \<Rightarrow> nat \<Rightarrow> real"

text \<open>
  A list of results, each of which may have failed, as the list of the values; the first
  failure is the failure of the whole (the exception leaves the loop).
\<close>

fun collect :: "(error + 'a) list \<Rightarrow> error + 'a list" where
  "collect [] = Inr []"
| "collect (Inl e # rs) = Inl e"
| "collect (Inr x # rs) = (case collect rs of Inl e \<Rightarrow> Inl e | Inr xs \<Rightarrow> Inr (x # xs))"

section \<open>Anomaly scorer\<close>

text \<open>
  \<^verbatim>\<open>torch.cdist(features, memory_bank, p=2.0)\<close>: the matrix of Euclidean distances
  between every row of the first argument and every row of the second. The call raises a
  RuntimeError when the two arguments differ in their number of columns.
\<close>

definition l2 :: "vec \<Rightarrow> vec \<Rightarrow> real" where
  "l2 x y = sqrt (sum_list (map (\<lambda>(a, b). (a - b)\<^sup>2) (zip x y)))"

definition cdist :: "matrix \<Rightarrow> matrix \<Rightarrow> error + matrix" where
  "cdist x1 x2 =
     (if list_all (\<lambda>a. list_all (\<lambda>b. length a = length b) x2) x1
      then Inr (map (\<lambda>a. map (l2 a) x2) x1)
      else Inl RuntimeError)"

text \<open>
  \<^verbatim>\<open>torch.min(distances, dim=1)\<close> reduces every row to its least entry by a running
  minimum; it raises an IndexError when the reduced dimension has size zero, whatever
  the number of rows. That size is the first argument of the model (the list of rows does
  not tell it for a matrix without rows). The notebook never reads the second component
  of the result (the positions of the minima), so only the values are modelled.
  \<^verbatim>\<open>torch.max(dist_score)\<close> reduces a one-dimensional tensor to its greatest entry and
  raises a RuntimeError on a tensor with no element.
\<close>

fun running_min :: "real \<Rightarrow> real list \<Rightarrow> real" where
  "running_min m [] = m"
| "running_min m (x # xs) = running_min (if x < m then x else m) xs"

fun running_max :: "real \<Rightarrow> real list \<Rightarrow> real" where
  "running_max m [] = m"
| "running_max m (x # xs) = running_max (if m < x then x else m) xs"

fun min_row :: "real list \<Rightarrow> error + real" where
  "min_row [] = Inl IndexError"
| "min_row (x # xs) = Inr (running_min x xs)"

definition torch_min_dim1 :: "nat \<Rightarrow> matrix \<Rightarrow> error + real list" where
  "torch_min_dim1 ncols distances =
     (if ncols = 0 then Inl IndexError else collect (map min_row distances))"

fun torch_max :: "real list \<Rightarrow> error + real" where
  "torch_max [] = Inl RuntimeError"
| "torch_max (x # xs) = Inr (running_max x xs)"

text \<open>
  \<^verbatim>\<open>dist_score.view(1, 1, 28, 28)\<close>: the 784 entries folded row-major into 28 rows
  of 28; any other number of entries raises a RuntimeError.
\<close>

definition rows_of :: "nat \<Rightarrow> nat \<Rightarrow> 'a list \<Rightarrow> 'a list list" where
  "rows_of h w xs = map (\<lambda>r. take w (drop (r * w) xs)) [0..<h]"

definition view_28_28 :: "real list \<Rightarrow> error + matrix" where
  "view_28_28 xs = (if length xs = 28 * 28 then Inr (rows_of 28 28 xs) else Inl RuntimeError)"

text \<open>
  \<^verbatim>\<open>torch.nn.functional.interpolate(segm_map, size=(224, 224), mode='bilinear')\<close>, with
  the default \<^verbatim>\<open>align_corners=False\<close>. Along each axis the output position \<open>i\<close> reads
  the input at the real coordinate \<open>(i + 1/2) * in / out - 1/2\<close>, clamped below at zero;
  its two neighbours are the floor of that coordinate and the next position (the same
  one at the border), weighted by the fractional part.
\<close>

definition source_index :: "nat \<Rightarrow> nat \<Rightarrow> nat \<Rightarrow> real" where
  "source_index in_size out_size i =
     max 0 ((real in_size / real out_size) * (real i + 1 / 2) - 1 / 2)"

definition index0 :: "nat \<Rightarrow> nat \<Rightarrow> nat \<Rightarrow> nat" where
  "index0 in_size out_size i = min (nat \<lfloor>source_index in_size out_size i\<rfloor>) (in_size - 1)"

definition index1 :: "nat \<Rightarrow> nat \<Rightarrow> nat \<Rightarrow> nat" where
  "index1 in_size out_size i =
     (let i0 = index0 in_size out_size i in if i0 < in_size - 1 then i0 + 1 else i0)"

definition lambda1 :: "nat \<Rightarrow> nat \<Rightarrow> nat \<Rightarrow> real" where
  "lambda1 in_size out_size i =
     min (max 0 (source_index in_size out_size i - real (index0 in_size out_size i))) 1"

definition bilinear_pixel :: "matrix \<Rightarrow> nat \<Rightarrow> nat \<Rightarrow> nat \<Rightarrow> nat \<Rightarrow> real" where
  "bilinear_pixel m out_h out_w y x =
     (let in_h = length m; in_w = length (hd m);
          h0 = index0 in_h out_h y; h1 = index1 in_h out_h y; lh = lambda1 in_h out_h y;
          w0 = index0 in_w out_w x; w1 = index1 in_w out_w x; lw = lambda1 in_w out_w x
      in (1 - lh) * ((1 - lw) * m ! h0 ! w0 + lw * m ! h0 ! w1)
         + lh * ((1 - lw) * m ! h1 ! w0 + lw * m ! h1 ! w1))"

definition interpolate_bilinear :: "matrix \<Rightarrow> nat \<Rightarrow> nat \<Rightarrow> matrix" where
  "interpolate_bilinear m out_h out_w =
     map (\<lambda>y. map (\<lambda>x. bilinear_pixel m out_h out_w y x) [0..<out_w]) [0..<out_h]"

text \<open>
  The scoring cell of the notebook (``Visualize one anomaly image''), from the patch
  matrix \<^verbatim>\<open>features\<close> of the image on: the distance matrix, the nearest distance of
  every patch, the score \<^verbatim>\<open>s_star\<close>, the 28 x 28 map and the map at 224 x 224. The
  result holds the score, the map before upsampling and the map after it. The distance
  matrix has one column per vector of the bank.
\<close>

definition score :: "matrix \<Rightarrow> matrix \<Rightarrow> error + (real \<times> matrix \<times> matrix)" where
  "score features memory_bank =
     (case cdist features memory_bank of
        Inl e \<Rightarrow> Inl e
      | Inr distances \<Rightarrow>
          (case torch_min_dim1 (length memory_bank) distances of
             Inl e \<Rightarrow> Inl e
           | Inr dist_score \<Rightarrow>
               (case torch_max dist_score of
                  Inl e \<Rightarrow> Inl e
                | Inr s_star \<Rightarrow>
                    (case view_28_28 dist_score of
                       Inl e \<Rightarrow> Inl e
                     | Inr segm_map \<Rightarrow>
                         Inr (s_star, segm_map, interpolate_bilinear segm_map 224 224)))))"

section \<open>Feature extractor\<close>

text \<open>
  The backbone is torchvision's ResNet-50, a collaborator of the notebook: the two forward
  hooks append the outputs of \<^verbatim>\<open>layer2[-1]\<close> and \<^verbatim>\<open>layer3[-1]\<close>, in this order, to
  \<^verbatim>\<open>self.features\<close>. Only the geometry of the network is modelled: a convolution or
  pooling layer with kernel \<open>k\<close>, stride \<open>s\<close> and padding \<open>p\<close> turns a side of \<open>n\<close>
  positions into \<open>(n + 2p - k) div s + 1\<close>; the stem is a 7 x 7 convolution of stride 2
  and padding 3 and a 3 x 3 max-pooling of stride 2 and padding 1, \<^verbatim>\<open>layer1\<close> keeps the
  resolution, \<^verbatim>\<open>layer2\<close> and \<^verbatim>\<open>layer3\<close> each halve it with a 3 x 3 convolution of
  stride 2 and padding 1, and they have 512 and 1024 output channels.
\<close>

definition conv_out :: "nat \<Rightarrow> nat \<Rightarrow> nat \<Rightarrow> nat \<Rightarrow> nat" where
  "conv_out n k s p = (n + 2 * p - k) div s + 1"

definition resnet50_tap_shapes :: "nat \<Rightarrow> (nat \<times> nat \<times> nat) list" where
  "resnet50_tap_shapes n =
     (let stem = conv_out n 7 2 3; layer1 = conv_out stem 3 2 1;
          layer2 = conv_out layer1 3 2 1; layer3 = conv_out layer2 3 2 1
      in [(512, layer2, layer2), (1024, layer3, layer3)])"

definition shape :: "activation \<Rightarrow> nat \<times> nat \<times> nat" where
  "shape f = (channels f, height f, width f)"

text \<open>
  \<^verbatim>\<open>torch.nn.AvgPool2d(3, stride=1)\<close>: a 3 x 3 window, stride 1, no padding. Every
  output entry is the mean of the nine entries under the window; an input with a side
  shorter than the window raises a RuntimeError.
\<close>

definition avg_pool2d :: "activation \<Rightarrow> error + activation" where
  "avg_pool2d f =
     (if height f < 3 \<or> width f < 3 then Inl RuntimeError
      else Inr \<lparr>channels = channels f,
                height = (height f - 3) div 1 + 1,
                width = (width f - 3) div 1 + 1,
                entry = (\<lambda>c i j.
                  sum_list (map (\<lambda>di. sum_list (map (\<lambda>dj. entry f c (i + di) (j + dj)) [0..<3]))
                    [0..<3]) / 9)\<rparr>)"

text \<open>
  \<^verbatim>\<open>torch.nn.AdaptiveAvgPool2d(fmap_size)\<close>: the output has \<open>fmap_size\<close> rows and
  columns; output position \<open>i\<close> averages the input positions from
  \<open>floor (i * in / out)\<close> up to, and excluding, \<open>ceiling ((i + 1) * in / out)\<close>.
\<close>

definition start_index :: "nat \<Rightarrow> nat \<Rightarrow> nat \<Rightarrow> nat" where
  "start_index i out_size in_size = (i * in_size) div out_size"

definition end_index :: "nat \<Rightarrow> nat \<Rightarrow> nat \<Rightarrow> nat" where
  "end_index i out_size in_size = 1 + ((i + 1) * in_size - 1) div out_size"

definition adaptive_avg_pool2d :: "nat \<Rightarrow> activation \<Rightarrow> error + activation" where
  "adaptive_avg_pool2d fmap_size f =
     (if height f = 0 \<or> width f = 0 then Inl RuntimeError
      else Inr \<lparr>channels = channels f, height = fmap_size, width = fmap_size,
                entry = (\<lambda>c i j.
                  let h0 = start_index i fmap_size (height f);
                      h1 = end_index i fmap_size (height f);
                      w0 = start_index j fmap_size (width f);
                      w1 = end_index j fmap_size (width f)
                  in sum_list (map (\<lambda>y. sum_list (map (\<lambda>x. entry f c y x) [w0..<w1])) [h0..<h1])
                     / real ((h1 - h0) * (w1 - w0)))\<rparr>)"

text \<open>
  \<^verbatim>\<open>torch.cat(resized_maps, 1)\<close> joins the maps along the channel axis, the first
  map's channels first; maps of different spatial size, or no map at all, raise a
  RuntimeError.
\<close>

fun cat_channels :: "activation list \<Rightarrow> error + activation" where
  "cat_channels [] = Inl RuntimeError"
| "cat_channels [f] = Inr f"
| "cat_channels (f # fs) =
     (case cat_channels fs of
        Inl e \<Rightarrow> Inl e
      | Inr g \<Rightarrow>
          if height f = height g \<and> width f = width g
          then Inr \<lparr>channels = channels f + channels g, height = height f, width = width f,
                    entry = (\<lambda>c. if c < channels f then entry f c else entry g (c - channels f))\<rparr>
          else Inl RuntimeError)"

text \<open>
  \<^verbatim>\<open>patch.reshape(patch.shape[1], -1).T\<close>: one row per spatial position, in row-major
  order, holding that position's entry of every channel.
\<close>

definition reshape_T :: "activation \<Rightarrow> matrix" where
  "reshape_T patch =
     map (\<lambda>n. map (\<lambda>c. entry patch c (n div width patch) (n mod width patch)) [0..<channels patch])
       [0..<height patch * width patch]"

text \<open>
  \<^verbatim>\<open>resnet_feature_extractor.forward\<close>, from the captured activations
  \<^verbatim>\<open>self.features\<close> on (the backbone's own forward pass has filled the list).
\<close>

definition smooth_resize :: "nat \<Rightarrow> activation \<Rightarrow> error + activation" where
  "smooth_resize fmap_size fmap =
     (case avg_pool2d fmap of Inl e \<Rightarrow> Inl e | Inr a \<Rightarrow> adaptive_avg_pool2d fmap_size a)"

definition forward :: "activation list \<Rightarrow> error + matrix" where
  "forward features =
     (case features of
        [] \<Rightarrow> Inl IndexError
      | f0 # _ \<Rightarrow>
          (let fmap_size = height f0 in
           case collect (map (smooth_resize fmap_size) features) of
             Inl e \<Rightarrow> Inl e
           | Inr resized_maps \<Rightarrow>
               (case cat_channels resized_maps of
                  Inl e \<Rightarrow> Inl e
                | Inr patch \<Rightarrow> Inr (reshape_T patch))))"

section \<open>Memory bank\<close>

text \<open>
  The memory bank cells. \<open>per_image\<close> is the list the loop over the reference images
  fills: the patch matrix \<^verbatim>\<open>backbone(data)\<close> of every image.
  \<^verbatim>\<open>torch.cat(memory_bank, dim=0)\<close> stacks these matrices; it raises a ValueError on an
  empty list (a RuntimeError in older releases of PyTorch) and a RuntimeError on matrices
  of different widths.
\<close>

definition cat_rows :: "matrix list \<Rightarrow> error + matrix" where
  "cat_rows ms =
     (if ms = [] then Inl ValueError
      else if list_all (\<lambda>r. length r = length (hd (concat ms))) (concat ms)
      then Inr (concat ms) else Inl RuntimeError)"

text \<open>
  \<^verbatim>\<open>np.random.choice(n, size=k, replace=False)\<close> raises a ValueError when more indices
  are asked for than there are; otherwise NumPy computes it as
  \<^verbatim>\<open>self.permutation(n)[:k]\<close>, the first \<open>k\<close> entries of a random permutation of the
  indices below \<open>n\<close>. The generator is a parameter of the model: \<open>permutation n\<close> is
  the permutation it returns for this call, and \<open>is_permutation n\<close> holds of the lists it
  can return, each of which it returns with the same probability.
\<close>

definition is_permutation :: "nat \<Rightarrow> nat list \<Rightarrow> bool" where
  "is_permutation n p = (mset p = mset [0..<n])"

definition random_choice :: "(nat \<Rightarrow> nat list) \<Rightarrow> nat \<Rightarrow> nat \<Rightarrow> error + nat list" where
  "random_choice permutation n k =
     (if n < k then Inl ValueError else Inr (take k (permutation n)))"

definition index_rows :: "matrix \<Rightarrow> nat list \<Rightarrow> error + matrix" where
  "index_rows m idxs =
     (if list_all (\<lambda>i. i < length m) idxs then Inr (map (\<lambda>i. m ! i) idxs) else Inl IndexError)"

definition build :: "(nat \<Rightarrow> nat list) \<Rightarrow> matrix list \<Rightarrow> error + matrix" where
  "build permutation per_image =
     (case cat_rows per_image of
        Inl e \<Rightarrow> Inl e
      | Inr memory_bank \<Rightarrow>
          (case random_choice permutation (length memory_bank) (length memory_bank div 10) of
             Inl e \<Rightarrow> Inl e
           | Inr selected_indices \<Rightarrow> index_rows memory_bank selected_indices))"

text \<open>
  The size the specification gives for the bank, in its own words: the pooled count times
  the sample fraction, rounded.
\<close>

definition spec_bank_size :: "real \<Rightarrow> nat \<Rightarrow> int" where
  "spec_bank_size sample_fraction pooled_count = round (sample_fraction * real pooled_count)"

section \<open>Threshold calibration\<close>

subsection \<open>Statistical policy\<close>

text \<open>
  \<^verbatim>\<open>np.mean\<close> and \<^verbatim>\<open>np.std\<close> (population standard deviation: the divisor is the
  number of scores, \<^verbatim>\<open>ddof=0\<close>). On an empty list both return \<^verbatim>\<open>nan\<close>, modelled as
  \<open>None\<close>. The notebook computes \<^verbatim>\<open>np.mean(y_score_good) + 3 * np.std(y_score_good)\<close>;
  the factor is the parameter \<open>k\<close> of the model, and \<open>best_threshold_good\<close> is the cell.
\<close>

definition np_mean :: "real list \<Rightarrow> real option" where
  "np_mean xs = (if xs = [] then None else Some (sum_list xs / real (length xs)))"

definition np_std :: "real list \<Rightarrow> real option" where
  "np_std xs =
     (case np_mean xs of
        None \<Rightarrow> None
      | Some m \<Rightarrow> map_option sqrt (np_mean (map (\<lambda>x. \<bar>x - m\<bar>\<^sup>2) xs)))"

definition calibrate_statistical :: "real list \<Rightarrow> real \<Rightarrow> real option" where
  "calibrate_statistical scores k =
     (case np_mean scores of
        None \<Rightarrow> None
      | Some m \<Rightarrow> (case np_std scores of None \<Rightarrow> None | Some sd \<Rightarrow> Some (m + k * sd)))"

definition best_threshold_good :: "real list \<Rightarrow> real option" where
  "best_threshold_good y_score_good = calibrate_statistical y_score_good 3"

subsection \<open>Metric-optimal policy\<close>

text \<open>
  A threshold returned by scikit-learn's \<^verbatim>\<open>roc_curve\<close> is \<^verbatim>\<open>np.inf\<close> or a score;
  \<^verbatim>\<open>y_score >= threshold\<close> is the prediction. Labels are 0 (good) and 1 (bad) in the
  notebook, \<open>False\<close> and \<open>True\<close> here.
\<close>

datatype threshold = Infinity | Finite real

fun predict :: "real \<Rightarrow> threshold \<Rightarrow> bool" where
  "predict s Infinity = False"
| "predict s (Finite t) = (t \<le> s)"

text \<open>
  \<^verbatim>\<open>roc_curve(y_true, y_score)\<close>, with its default \<^verbatim>\<open>drop_intermediate=True\<close>: the
  distinct scores in descending order, with the numbers of true and of false positives
  at each of them; of these points the first, the last and those where the second
  difference of either count is not zero are kept (all of them when there are at most
  two); \<^verbatim>\<open>np.inf\<close> is put in front (scikit-learn 1.3 and later; the notebook runs on
  Python 3.12, which earlier releases do not support). Labels of one class only raise a
  warning. Lists of different lengths and empty lists are rejected. Of the three arrays
  the function returns, the notebook's calibration reads the thresholds.
\<close>

definition tps_at :: "bool list \<Rightarrow> real list \<Rightarrow> real \<Rightarrow> int" where
  "tps_at y_true y_score t = int (length (filter (\<lambda>(l, s). l \<and> t \<le> s) (zip y_true y_score)))"

definition fps_at :: "bool list \<Rightarrow> real list \<Rightarrow> real \<Rightarrow> int" where
  "fps_at y_true y_score t = int (length (filter (\<lambda>(l, s). \<not> l \<and> t \<le> s) (zip y_true y_score)))"

definition second_diff :: "int list \<Rightarrow> nat \<Rightarrow> int" where
  "second_diff xs i = xs ! (i + 1) - 2 * xs ! i + xs ! (i - 1)"

definition optimal_idxs :: "int list \<Rightarrow> int list \<Rightarrow> nat list" where
  "optimal_idxs fps tps =
     (let n = length fps
      in if 2 < n
         then filter (\<lambda>i. i = 0 \<or> i = n - 1 \<or> second_diff fps i \<noteq> 0 \<or> second_diff tps i \<noteq> 0)
                [0..<n]
         else [0..<n])"

definition roc_curve :: "bool list \<Rightarrow> real list \<Rightarrow> error + threshold list" where
  "roc_curve y_true y_score =
     (if length y_true \<noteq> length y_score \<or> y_score = [] then Inl ValueError
      else (let thresholds = rev (sort (remdups y_score));
                tps = map (tps_at y_true y_score) thresholds;
                fps = map (fps_at y_true y_score) thresholds
            in Inr (Infinity # map (\<lambda>i. Finite (thresholds ! i)) (optimal_idxs fps tps))))"

text \<open>
  \<^verbatim>\<open>f1_score(y_true, y_pred)\<close> for the positive label 1: twice the true positives over
  twice the true positives plus the false positives plus the false negatives, and 0 when
  that denominator is zero.
\<close>

definition f1_score :: "bool list \<Rightarrow> bool list \<Rightarrow> real" where
  "f1_score y_true y_pred =
     (let tp = length (filter (\<lambda>(t, p). t \<and> p) (zip y_true y_pred));
          fp = length (filter (\<lambda>(t, p). \<not> t \<and> p) (zip y_true y_pred));
          fn = length (filter (\<lambda>(t, p). t \<and> \<not> p) (zip y_true y_pred))
      in if 2 * tp + fp + fn = 0 then 0 else real (2 * tp) / real (2 * tp + fp + fn))"

definition f1_at :: "bool list \<Rightarrow> real list \<Rightarrow> threshold \<Rightarrow> real" where
  "f1_at y_true y_score threshold = f1_score y_true (map (\<lambda>s. predict s threshold) y_score)"

text \<open>\<^verbatim>\<open>np.argmax\<close>: the position of the first greatest entry; a ValueError on no entry.\<close>

fun argmax_loop :: "nat \<Rightarrow> real \<Rightarrow> nat \<Rightarrow> real list \<Rightarrow> nat" where
  "argmax_loop best v i [] = best"
| "argmax_loop best v i (x # xs) =
     (if v < x then argmax_loop i x (Suc i) xs else argmax_loop best v (Suc i) xs)"

fun np_argmax :: "real list \<Rightarrow> error + nat" where
  "np_argmax [] = Inl ValueError"
| "np_argmax (x # xs) = Inr (argmax_loop 0 x 1 xs)"

text \<open>
  The calibration lines of the evaluation cell: \<^verbatim>\<open>roc_curve\<close>, the F1 score of every
  threshold it returns, and the threshold at \<^verbatim>\<open>np.argmax(f1_scores)\<close>.
\<close>

definition calibrate_by_metric :: "bool list \<Rightarrow> real list \<Rightarrow> error + threshold" where
  "calibrate_by_metric y_true y_score =
     (case roc_curve y_true y_score of
        Inl e \<Rightarrow> Inl e
      | Inr thresholds \<Rightarrow>
          (let f1_scores = map (f1_at y_true y_score) thresholds
           in case np_argmax f1_scores of
                Inl e \<Rightarrow> Inl e
              | Inr i \<Rightarrow> Inr (thresholds ! i)))"

text \<open>
  The calibration as the specification words it: the candidates are the observed scores,
  each once, in ascending order, and the first candidate of greatest F1 score is returned.
\<close>

definition spec_calibrate_by_metric :: "bool list \<Rightarrow> real list \<Rightarrow> error + threshold" where
  "spec_calibrate_by_metric y_true y_score =
     (let candidates = map Finite (sort (remdups y_score))
      in case np_argmax (map (f1_at y_true y_score) candidates) of
           Inl e \<Rightarrow> Inl e
         | Inr i \<Rightarrow> Inr (candidates ! i))"

section \<open>Properties of the anomaly scorer\<close>

subsection \<open>The reductions compute the least and the greatest entry\<close>

lemma running_min_Min: "running_min m xs = Min (set (m # xs))"
proof (induction xs arbitrary: m)
  case Nil then show ?case by simp
next
  case (Cons x xs)
  have "Min (set (m # x # xs)) = Min (set ((if x < m then x else m) # xs))"
    by (cases xs) (auto simp: min_def)
  with Cons show ?case by simp
qed

lemma running_max_Max: "running_max m xs = Max (set (m # xs))"
proof (induction xs arbitrary: m)
  case Nil then show ?case by simp
next
  case (Cons x xs)
  have "Max (set (m # x # xs)) = Max (set ((if m < x then x else m) # xs))"
    by (cases xs) (auto simp: max_def)
  with Cons show ?case by simp
qed

lemma min_row_Min: "r \<noteq> [] \<Longrightarrow> min_row r = Inr (Min (set r))"
  by (cases r) (simp_all add: running_min_Min)

lemma torch_max_Max: "xs \<noteq> [] \<Longrightarrow> torch_max xs = Inr (Max (set xs))"
  by (cases xs) (simp_all add: running_max_Max)

lemma collect_min_row:
  "list_all (\<lambda>r. r \<noteq> []) d \<Longrightarrow> collect (map min_row d) = Inr (map (\<lambda>r. Min (set r)) d)"
  by (induction d) (simp_all add: min_row_Min)

lemma torch_min_dim1_Min:
  "0 < n \<Longrightarrow> list_all (\<lambda>r. r \<noteq> []) d \<Longrightarrow>
   torch_min_dim1 n d = Inr (map (\<lambda>r. Min (set r)) d)"
  by (simp add: torch_min_dim1_def collect_min_row)

lemma torch_min_dim1_no_column: "torch_min_dim1 0 d = Inl IndexError"
  by (simp add: torch_min_dim1_def)

lemma length_rows_of: "length (rows_of h w xs) = h"
  by (simp add: rows_of_def)

lemma nth_rows_of:
  "r < h \<Longrightarrow> c < w \<Longrightarrow> length xs = h * w \<Longrightarrow> rows_of h w xs ! r ! c = xs ! (r * w + c)"
proof -
  assume a: "r < h" "c < w" "length xs = h * w"
  have "r * w + w \<le> h * w"
    using a(1) by (metis Suc_leI mult_Suc mult_le_mono1 add.commute)
  then show ?thesis using a by (simp add: rows_of_def)
qed

lemma concat_rows_of: "length xs = h * w \<Longrightarrow> concat (rows_of h w xs) = xs"
proof (induction h arbitrary: xs)
  case 0 then show ?case by (simp add: rows_of_def)
next
  case (Suc h)
  have "rows_of (Suc h) w xs = rows_of h w xs @ [take w (drop (h * w) xs)]"
    by (simp add: rows_of_def)
  moreover have "rows_of h w xs = rows_of h w (take (h * w) xs)"
    unfolding rows_of_def
  proof (rule map_cong[OF refl])
    fix r assume "r \<in> set [0..<h]"
    then have "r * w + w \<le> h * w"
      by (metis Suc_leI mult_Suc mult_le_mono1 add.commute atLeastLessThan_iff set_upt)
    then show "take w (drop (r * w) xs) = take w (drop (r * w) (take (h * w) xs))"
      by (simp add: drop_take)
  qed
  moreover have "concat (rows_of h w (take (h * w) xs)) = take (h * w) xs"
    using Suc.prems by (intro Suc.IH) simp
  moreover have "take w (drop (h * w) xs) = drop (h * w) xs"
    using Suc.prems by simp
  ultimately show ?case by simp
qed

lemma cdist_ok:
  "\<forall>q\<in>set F. \<forall>b\<in>set B. length q = length b \<Longrightarrow> cdist F B = Inr (map (\<lambda>a. map (l2 a) B) F)"
  by (simp add: cdist_def list_all_iff)

lemma cdist_mismatch:
  "\<not> (\<forall>q\<in>set F. \<forall>b\<in>set B. length q = length b) \<Longrightarrow> cdist F B = Inl RuntimeError"
  by (simp add: cdist_def list_all_iff)

lemma nearest_distances:
  assumes "B \<noteq> []"
  shows "torch_min_dim1 (length B) (map (\<lambda>a. map (l2 a) B) F)
    = Inr (map (\<lambda>q. Min (l2 q ` set B)) F)"
proof -
  have "list_all (\<lambda>r. r \<noteq> []) (map (\<lambda>a. map (l2 a) B) F)"
    using assms by (simp add: list_all_iff)
  moreover have "0 < length B" using assms by simp
  ultimately have "torch_min_dim1 (length B) (map (\<lambda>a. map (l2 a) B) F)
      = Inr (map (\<lambda>r. Min (set r)) (map (\<lambda>a. map (l2 a) B) F))"
    by (intro torch_min_dim1_Min)
  then show ?thesis by (simp add: comp_def)
qed

lemma score_ok:
  assumes "length F = 784" and "B \<noteq> []"
    and "\<forall>q\<in>set F. \<forall>b\<in>set B. length q = length b"
  shows "score F B =
    Inr (Max ((\<lambda>q. Min (l2 q ` set B)) ` set F),
         rows_of 28 28 (map (\<lambda>q. Min (l2 q ` set B)) F),
         interpolate_bilinear (rows_of 28 28 (map (\<lambda>q. Min (l2 q ` set B)) F)) 224 224)"
proof -
  have ne: "map (\<lambda>q. Min (l2 q ` set B)) F \<noteq> []"
    using assms(1) by auto
  show ?thesis
    unfolding score_def
    by (simp add: cdist_ok[OF assms(3)] nearest_distances[OF assms(2)]
        torch_max_Max[OF ne] view_28_28_def assms(1))
qed

lemma l2_nonneg: "0 \<le> l2 x y"
  unfolding l2_def by (rule real_sqrt_ge_zero, rule sum_list_nonneg) auto

lemma nearest_nonneg: "B \<noteq> [] \<Longrightarrow> 0 \<le> Min (l2 q ` set B)"
  by (simp add: l2_nonneg)

lemma score_empty_bank: "score F [] = Inl IndexError"
  by (simp add: score_def cdist_def list_all_iff torch_min_dim1_no_column)

lemma score_IndexError_only_empty:
  assumes "B \<noteq> []" shows "score F B \<noteq> Inl IndexError"
proof (cases "\<forall>q\<in>set F. \<forall>b\<in>set B. length q = length b")
  case False
  then show ?thesis by (simp add: score_def cdist_mismatch)
next
  case True
  have c: "cdist F B = Inr (map (\<lambda>a. map (l2 a) B) F)"
    by (rule cdist_ok[OF True])
  have m: "torch_min_dim1 (length B) (map (\<lambda>a. map (l2 a) B) F)
      = Inr (map (\<lambda>q. Min (l2 q ` set B)) F)"
    by (rule nearest_distances[OF assms])
  have "torch_max (map (\<lambda>q. Min (l2 q ` set B)) F) \<noteq> Inl IndexError"
    by (cases F) simp_all
  then show ?thesis
    by (auto simp add: score_def c m view_28_28_def split: sum.splits)
qed

subsection \<open>Bilinear interpolation stays between the least and the greatest entry\<close>

lemma index0_less: "0 < n \<Longrightarrow> index0 n out i < n"
  unfolding index0_def by (rule le_less_trans[OF min.cobounded2]) simp

lemma index1_less: "0 < n \<Longrightarrow> index1 n out i < n"
  using index0_less[of n out i] by (auto simp: index1_def Let_def)

lemma lambda1_range: "0 \<le> lambda1 n out i \<and> lambda1 n out i \<le> 1"
  by (simp add: lambda1_def)

lemma convex_between:
  fixes a b l lo hi :: real
  assumes "lo \<le> a" "a \<le> hi" "lo \<le> b" "b \<le> hi" "0 \<le> l" "l \<le> 1"
  shows "lo \<le> (1 - l) * a + l * b \<and> (1 - l) * a + l * b \<le> hi"
proof -
  have 1: "(1 - l) * lo \<le> (1 - l) * a" "(1 - l) * a \<le> (1 - l) * hi"
    using assms by (simp_all add: mult_left_mono)
  have 2: "l * lo \<le> l * b" "l * b \<le> l * hi"
    using assms by (simp_all add: mult_left_mono)
  have "(1 - l) * lo + l * lo = lo" "(1 - l) * hi + l * hi = hi"
    by (simp_all add: algebra_simps)
  with 1 2 show ?thesis by linarith
qed

lemma bilinear_pixel_between:
  assumes m: "m \<noteq> []" "\<forall>r\<in>set m. length r = w" "0 < w"
    and b: "\<forall>r\<in>set m. \<forall>v\<in>set r. lo \<le> v \<and> v \<le> hi"
  shows "lo \<le> bilinear_pixel m oh ow y x \<and> bilinear_pixel m oh ow y x \<le> hi"
proof -
  define h0 where "h0 = index0 (length m) oh y"
  define h1 where "h1 = index1 (length m) oh y"
  define w0 where "w0 = index0 w ow x"
  define w1 where "w1 = index1 w ow x"
  define lh where "lh = lambda1 (length m) oh y"
  define lw where "lw = lambda1 w ow x"
  have hw: "length (hd m) = w" using m by (cases m) auto
  have lt: "h0 < length m" "h1 < length m" "w0 < w" "w1 < w"
    using m by (simp_all add: h0_def h1_def w0_def w1_def index0_less index1_less)
  have cell: "lo \<le> m ! i ! j \<and> m ! i ! j \<le> hi" if "i < length m" "j < w" for i j
  proof -
    have "m ! i \<in> set m" using that by simp
    moreover from this have "m ! i ! j \<in> set (m ! i)" using m that by simp
    ultimately show ?thesis using b by blast
  qed
  have l: "0 \<le> lh" "lh \<le> 1" "0 \<le> lw" "lw \<le> 1"
    using lambda1_range by (simp_all add: lh_def lw_def)
  have r0: "lo \<le> (1 - lw) * m ! h0 ! w0 + lw * m ! h0 ! w1
     \<and> (1 - lw) * m ! h0 ! w0 + lw * m ! h0 ! w1 \<le> hi"
    using cell[OF lt(1) lt(3)] cell[OF lt(1) lt(4)] l by (intro convex_between) simp_all
  have r1: "lo \<le> (1 - lw) * m ! h1 ! w0 + lw * m ! h1 ! w1
     \<and> (1 - lw) * m ! h1 ! w0 + lw * m ! h1 ! w1 \<le> hi"
    using cell[OF lt(2) lt(3)] cell[OF lt(2) lt(4)] l by (intro convex_between) simp_all
  have "bilinear_pixel m oh ow y x =
    (1 - lh) * ((1 - lw) * m ! h0 ! w0 + lw * m ! h0 ! w1)
     + lh * ((1 - lw) * m ! h1 ! w0 + lw * m ! h1 ! w1)"
    by (simp add: bilinear_pixel_def Let_def hw h0_def h1_def w0_def w1_def lh_def lw_def)
  moreover have "lo \<le> (1 - lh) * ((1 - lw) * m ! h0 ! w0 + lw * m ! h0 ! w1)
     + lh * ((1 - lw) * m ! h1 ! w0 + lw * m ! h1 ! w1)
    \<and> (1 - lh) * ((1 - lw) * m ! h0 ! w0 + lw * m ! h0 ! w1)
     + lh * ((1 - lw) * m ! h1 ! w0 + lw * m ! h1 ! w1) \<le> hi"
    using r0 r1 l by (intro convex_between) simp_all
  ultimately show ?thesis by simp
qed

lemma interpolate_bilinear_nth:
  "y < oh \<Longrightarrow> x < ow \<Longrightarrow> interpolate_bilinear m oh ow ! y ! x = bilinear_pixel m oh ow y x"
  by (simp add: interpolate_bilinear_def)

lemma interpolate_bilinear_length:
  "length (interpolate_bilinear m oh ow) = oh"
  "y < oh \<Longrightarrow> length (interpolate_bilinear m oh ow ! y) = ow"
  by (simp_all add: interpolate_bilinear_def)

lemma rows_of_row_length:
  "r < h \<Longrightarrow> length xs = h * w \<Longrightarrow> length (rows_of h w xs ! r) = w"
proof -
  assume a: "r < h" "length xs = h * w"
  have "r * w + w \<le> h * w"
    using a(1) by (metis Suc_leI mult_Suc mult_le_mono1 add.commute)
  then show ?thesis using a by (simp add: rows_of_def)
qed

lemma rows_of_set:
  assumes "length xs = h * w" "r \<in> set (rows_of h w xs)"
  shows "length r = w \<and> set r \<subseteq> set xs"
proof -
  obtain i where i: "i < h" "r = take w (drop (i * w) xs)"
    using assms(2) by (auto simp: rows_of_def)
  have "i * w + w \<le> h * w"
    using i(1) by (metis Suc_leI mult_Suc mult_le_mono1 add.commute)
  then have "length r = w" using i assms(1) by simp
  moreover have "set r \<subseteq> set xs"
    unfolding i(2) by (meson set_take_subset set_drop_subset subset_trans)
  ultimately show ?thesis by simp
qed

subsection \<open>The score and the anomaly map\<close>

lemma sqrt_25: "sqrt 25 = 5"
proof -
  have "sqrt ((5::real)\<^sup>2) = 5" by simp
  then show ?thesis by simp
qed

lemma Max_nearest_nonneg:
  assumes "F \<noteq> []" "B \<noteq> []"
  shows "0 \<le> Max ((\<lambda>q. Min (l2 q ` set B)) ` set F)"
proof -
  have "Min (l2 (hd F) ` set B) \<in> (\<lambda>q. Min (l2 q ` set B)) ` set F"
    using assms(1) by simp
  then have "Min (l2 (hd F) ` set B) \<le> Max ((\<lambda>q. Min (l2 q ` set B)) ` set F)"
    by (intro Max_ge) simp_all
  with nearest_nonneg[OF assms(2), of "hd F"] show ?thesis by linarith
qed

subsection \<open>The distance and the interpolation in closed form\<close>

lemma l2_euclid:
  assumes "length x = D" "length y = D"
  shows "l2 x y = sqrt (\<Sum>i<D. (x ! i - y ! i)\<^sup>2)"
proof -
  have "sum_list (map (\<lambda>(a, b). (a - b)\<^sup>2) (zip x y))
      = (\<Sum>i = 0..<length (map (\<lambda>(a, b). (a - b)\<^sup>2) (zip x y)).
           map (\<lambda>(a, b). (a - b)\<^sup>2) (zip x y) ! i)"
    by (rule sum_list_sum_nth)
  also have "\<dots> = (\<Sum>i = 0..<D. (x ! i - y ! i)\<^sup>2)"
    using assms by (intro sum.cong) simp_all
  finally show ?thesis by (simp add: l2_def atLeast0LessThan)
qed

lemma nearest_euclid:
  assumes "length q = D" "\<forall>b\<in>set B. length b = D"
  shows "Min (l2 q ` set B) = Min ((\<lambda>b. sqrt (\<Sum>i<D. (q ! i - b ! i)\<^sup>2)) ` set B)"
proof -
  have "l2 q ` set B = (\<lambda>b. sqrt (\<Sum>i<D. (q ! i - b ! i)\<^sup>2)) ` set B"
    using assms by (intro image_cong refl l2_euclid) simp_all
  then show ?thesis by simp
qed

lemma source_index_28_224: "source_index 28 224 i = max 0 ((2 * real i - 7) / 16)"
proof -
  have "(real 28 / real 224) * (real i + 1 / 2) - 1 / 2 = (2 * real i - 7) / 16"
    by (simp add: field_simps)
  then show ?thesis by (simp only: source_index_def)
qed

lemma axis_28_224:
  assumes "i < 224"
  defines "s \<equiv> max 0 ((2 * real i - 7) / 16)"
  shows "index0 28 224 i = nat \<lfloor>s\<rfloor>"
    and "index1 28 224 i = min (nat \<lfloor>s\<rfloor> + 1) 27"
    and "lambda1 28 224 i = s - real (nat \<lfloor>s\<rfloor>)"
proof -
  have s0: "0 \<le> s" by (simp add: s_def)
  have "real i \<le> 223" using assms by simp
  then have "(2 * real i - 7) / 16 < 28" by simp
  then have s28: "s < 28" by (simp add: s_def)
  then have "\<lfloor>s\<rfloor> < 28" by (subst floor_less_iff) simp
  then have f27: "nat \<lfloor>s\<rfloor> \<le> 27" by linarith
  show i0: "index0 28 224 i = nat \<lfloor>s\<rfloor>"
    using f27 by (simp add: index0_def source_index_28_224 s_def[symmetric])
  show "index1 28 224 i = min (nat \<lfloor>s\<rfloor> + 1) 27"
    using f27 by (simp add: index1_def i0 Let_def min_def)
  have r: "real (nat \<lfloor>s\<rfloor>) = of_int \<lfloor>s\<rfloor>" using s0 by simp
  have "0 \<le> s - of_int \<lfloor>s\<rfloor>" "s - of_int \<lfloor>s\<rfloor> \<le> 1"
    by linarith+
  then show "lambda1 28 224 i = s - real (nat \<lfloor>s\<rfloor>)"
    by (simp add: lambda1_def i0 source_index_28_224 s_def[symmetric] r)
qed

lemma bilinear_pixel_28_224:
  assumes "length m = 28" "length (hd m) = 28" "y < 224" "x < 224"
  shows "bilinear_pixel m 224 224 y x =
    (let sy = max 0 ((2 * real y - 7) / 16); y0 = nat \<lfloor>sy\<rfloor>; y1 = min (y0 + 1) 27;
         ly = sy - real y0;
         sx = max 0 ((2 * real x - 7) / 16); x0 = nat \<lfloor>sx\<rfloor>; x1 = min (x0 + 1) 27;
         lx = sx - real x0
     in (1 - ly) * ((1 - lx) * m ! y0 ! x0 + lx * m ! y0 ! x1)
        + ly * ((1 - lx) * m ! y1 ! x0 + lx * m ! y1 ! x1))"
  unfolding bilinear_pixel_def Let_def assms(1,2)
    axis_28_224(1)[OF assms(3)] axis_28_224(2)[OF assms(3)] axis_28_224(3)[OF assms(3)]
    axis_28_224(1)[OF assms(4)] axis_28_224(2)[OF assms(4)] axis_28_224(3)[OF assms(4)]
  by (rule refl)

lemma sqrt_100: "sqrt 100 = 10"
proof -
  have "sqrt ((10::real)\<^sup>2) = 10" by simp
  then show ?thesis by simp
qed

text \<open>
  Claim C1. For the 784 patch vectors of an image and a memory bank with at least one
  vector, all of dimension \<open>D\<close>, the scoring cell returns the following. The score is
  the greatest, over the patches, of the least Euclidean distance (the square root of the
  sum of the squared differences of the \<open>D\<close> components) from the patch to a bank vector.
  The 28 x 28 map is the sequence of these nearest distances folded row-major: cell
  \<open>(r, c)\<close> holds the distance of patch \<open>r * 28 + c\<close>. The anomaly map has 224 x 224
  pixels and is the bilinear interpolation of the 28 x 28 map: the centre of pixel \<open>y\<close>
  lies at \<open>(y + 1/2) / 8 - 1/2 = (2y - 7) / 16\<close> in the coordinates of the map (at 0 when
  that is negative), the pixel is read from the two rows around that position and the two
  columns around the corresponding position of \<open>x\<close> (the last row or column twice at the
  border), and the four cells are weighted by the fractional parts. Every pixel lies
  between 0 and the score.
\<close>

theorem score_max_of_nearest_distances:
  assumes "length features = 784" and "memory_bank \<noteq> []"
    and "\<forall>q\<in>set features. length q = D" and "\<forall>b\<in>set memory_bank. length b = D"
  shows "\<exists>segm_map upsampled.
      score features memory_bank =
        Inr (Max ((\<lambda>q. Min ((\<lambda>b. sqrt (\<Sum>i<D. (q ! i - b ! i)\<^sup>2)) ` set memory_bank))
                   ` set features),
             segm_map, upsampled)
    \<and> concat segm_map
        = map (\<lambda>q. Min ((\<lambda>b. sqrt (\<Sum>i<D. (q ! i - b ! i)\<^sup>2)) ` set memory_bank)) features
    \<and> length segm_map = 28
    \<and> (\<forall>r<28. length (segm_map ! r) = 28
          \<and> (\<forall>c<28. segm_map ! r ! c =
                Min ((\<lambda>b. sqrt (\<Sum>i<D. (features ! (r * 28 + c) ! i - b ! i)\<^sup>2))
                      ` set memory_bank)))
    \<and> length upsampled = 224
    \<and> (\<forall>y<224. length (upsampled ! y) = 224
          \<and> (\<forall>x<224.
                upsampled ! y ! x =
                  (let sy = max 0 ((2 * real y - 7) / 16); y0 = nat \<lfloor>sy\<rfloor>;
                       y1 = min (y0 + 1) 27; ly = sy - real y0;
                       sx = max 0 ((2 * real x - 7) / 16); x0 = nat \<lfloor>sx\<rfloor>;
                       x1 = min (x0 + 1) 27; lx = sx - real x0
                   in (1 - ly) * ((1 - lx) * segm_map ! y0 ! x0 + lx * segm_map ! y0 ! x1)
                      + ly * ((1 - lx) * segm_map ! y1 ! x0 + lx * segm_map ! y1 ! x1))
                \<and> 0 \<le> upsampled ! y ! x
                \<and> upsampled ! y ! x
                    \<le> Max ((\<lambda>q. Min ((\<lambda>b. sqrt (\<Sum>i<D. (q ! i - b ! i)\<^sup>2)) ` set memory_bank))
                             ` set features)))"
proof -
  define near where "near = (\<lambda>q. Min ((\<lambda>b. sqrt (\<Sum>i<D. (q ! i - b ! i)\<^sup>2)) ` set memory_bank))"
  define ds where "ds = map near features"
  define s where "s = Max (near ` set features)"
  define m where "m = rows_of 28 28 ds"
  define u where "u = interpolate_bilinear m 224 224"
  have eq: "Min (l2 q ` set memory_bank) = near q" if "q \<in> set features" for q
    unfolding near_def using assms(3,4) that by (intro nearest_euclid) simp_all
  have dims: "\<forall>q\<in>set features. \<forall>b\<in>set memory_bank. length q = length b"
    using assms(3,4) by simp
  have ds: "map (\<lambda>q. Min (l2 q ` set memory_bank)) features = ds"
    unfolding ds_def using eq by (intro map_cong) simp_all
  have mx: "Max ((\<lambda>q. Min (l2 q ` set memory_bank)) ` set features) = s"
  proof -
    have "(\<lambda>q. Min (l2 q ` set memory_bank)) ` set features = near ` set features"
      using eq by (intro image_cong) simp_all
    then show ?thesis by (simp add: s_def)
  qed
  have len: "length ds = 28 * 28" using assms(1) by (simp add: ds_def)
  have sc: "score features memory_bank = Inr (s, m, u)"
    using score_ok[OF assms(1,2) dims] unfolding ds mx m_def u_def .
  have cc: "concat m = ds" unfolding m_def by (rule concat_rows_of[OF len])
  have lm: "length m = 28" by (simp add: m_def length_rows_of)
  have rows: "length (m ! r) = 28 \<and> (\<forall>c<28. m ! r ! c = near (features ! (r * 28 + c)))"
    if r: "r < 28" for r
  proof (intro conjI allI impI)
    show "length (m ! r) = 28" unfolding m_def by (rule rows_of_row_length[OF r len])
    fix c :: nat assume c: "c < 28"
    have "r * 28 + c < 784" using r c by simp
    then have "ds ! (r * 28 + c) = near (features ! (r * 28 + c))"
      using assms(1) by (simp add: ds_def)
    then show "m ! r ! c = near (features ! (r * 28 + c))"
      unfolding m_def using nth_rows_of[OF r c len] by simp
  qed
  have mne: "m \<noteq> []" using lm by auto
  have mrow: "\<forall>r\<in>set m. length r = 28"
    using rows_of_set[OF len] by (auto simp: m_def)
  have hd28: "length (hd m) = 28" using mne mrow by simp
  have rng: "\<forall>r\<in>set m. \<forall>v\<in>set r. 0 \<le> v \<and> v \<le> s"
  proof (intro ballI)
    fix r v assume "r \<in> set m" "v \<in> set r"
    then have "v \<in> set ds" using rows_of_set[OF len] by (auto simp: m_def)
    then obtain q where q: "q \<in> set features" "v = near q"
      by (auto simp: ds_def)
    have "v \<le> s" unfolding s_def q(2) using q(1) by (intro Max_ge) simp_all
    moreover have "0 \<le> v"
      unfolding q(2) eq[OF q(1), symmetric] by (rule nearest_nonneg[OF assms(2)])
    ultimately show "0 \<le> v \<and> v \<le> s" by simp
  qed
  have pix: "length (u ! y) = 224
      \<and> (\<forall>x<224.
            u ! y ! x =
              (let sy = max 0 ((2 * real y - 7) / 16); y0 = nat \<lfloor>sy\<rfloor>;
                   y1 = min (y0 + 1) 27; ly = sy - real y0;
                   sx = max 0 ((2 * real x - 7) / 16); x0 = nat \<lfloor>sx\<rfloor>;
                   x1 = min (x0 + 1) 27; lx = sx - real x0
               in (1 - ly) * ((1 - lx) * m ! y0 ! x0 + lx * m ! y0 ! x1)
                  + ly * ((1 - lx) * m ! y1 ! x0 + lx * m ! y1 ! x1))
            \<and> 0 \<le> u ! y ! x \<and> u ! y ! x \<le> s)"
    if y: "y < 224" for y
  proof (intro conjI allI impI)
    show "length (u ! y) = 224" unfolding u_def by (rule interpolate_bilinear_length(2)[OF y])
    fix x :: nat assume x: "x < 224"
    have e: "u ! y ! x = bilinear_pixel m 224 224 y x"
      unfolding u_def by (rule interpolate_bilinear_nth[OF y x])
    show "u ! y ! x =
              (let sy = max 0 ((2 * real y - 7) / 16); y0 = nat \<lfloor>sy\<rfloor>;
                   y1 = min (y0 + 1) 27; ly = sy - real y0;
                   sx = max 0 ((2 * real x - 7) / 16); x0 = nat \<lfloor>sx\<rfloor>;
                   x1 = min (x0 + 1) 27; lx = sx - real x0
               in (1 - ly) * ((1 - lx) * m ! y0 ! x0 + lx * m ! y0 ! x1)
                  + ly * ((1 - lx) * m ! y1 ! x0 + lx * m ! y1 ! x1))"
      unfolding e by (rule bilinear_pixel_28_224[OF lm hd28 y x])
    show "0 \<le> u ! y ! x" "u ! y ! x \<le> s"
      unfolding e using bilinear_pixel_between[OF mne mrow _ rng, of 224 224 y x] by simp_all
  qed
  have lu: "length u = 224" by (simp add: u_def interpolate_bilinear_length)
  have "score features memory_bank = Inr (s, m, u) \<and> concat m = ds \<and> length m = 28
    \<and> (\<forall>r<28. length (m ! r) = 28 \<and> (\<forall>c<28. m ! r ! c = near (features ! (r * 28 + c))))
    \<and> length u = 224
    \<and> (\<forall>y<224. length (u ! y) = 224
      \<and> (\<forall>x<224.
            u ! y ! x =
              (let sy = max 0 ((2 * real y - 7) / 16); y0 = nat \<lfloor>sy\<rfloor>;
                   y1 = min (y0 + 1) 27; ly = sy - real y0;
                   sx = max 0 ((2 * real x - 7) / 16); x0 = nat \<lfloor>sx\<rfloor>;
                   x1 = min (x0 + 1) 27; lx = sx - real x0
               in (1 - ly) * ((1 - lx) * m ! y0 ! x0 + lx * m ! y0 ! x1)
                  + ly * ((1 - lx) * m ! y1 ! x0 + lx * m ! y1 ! x1))
            \<and> 0 \<le> u ! y ! x \<and> u ! y ! x \<le> s))"
    using sc cc lm rows pix lu by blast
  then show ?thesis unfolding s_def ds_def near_def by blast
qed

theorem score_max_of_nearest_distances_witness:
  "length (replicate 783 [3, 4] @ [[6, 8 :: real]]) = 784 \<and> [[0, 0], [3, 4 :: real]] \<noteq> []
   \<and> map_sum id fst (score (replicate 783 [3, 4] @ [[6, 8]]) [[0, 0], [3, 4]]) = Inr 5
   \<and> map_sum id (\<lambda>(s, m, u). m ! 26 ! 27) (score (replicate 783 [3, 4] @ [[6, 8]]) [[0, 0], [3, 4]])
       = Inr 0
   \<and> map_sum id (\<lambda>(s, m, u). m ! 27 ! 27) (score (replicate 783 [3, 4] @ [[6, 8]]) [[0, 0], [3, 4]])
       = Inr 5
   \<and> map_sum id (\<lambda>(s, m, u). u ! 215 ! 223) (score (replicate 783 [3, 4] @ [[6, 8]]) [[0, 0], [3, 4]])
       = Inr (35 / 16)"
proof -
  define F where "F = replicate 783 [3, 4] @ [[6, 8 :: real]]"
  define B where "B = [[0, 0], [3, 4 :: real]]"
  define near where "near = (\<lambda>q. Min ((\<lambda>b. sqrt (\<Sum>i<2. (q ! i - b ! i)\<^sup>2)) ` set B))"
  have h1: "length F = 784" by (simp add: F_def)
  have h2: "B \<noteq> []" by (simp add: B_def)
  have h3: "\<forall>q\<in>set F. length q = 2" by (auto simp: F_def)
  have h4: "\<forall>b\<in>set B. length b = 2" by (simp add: B_def)
  have two: "{..<2::nat} = {0, 1}" by auto
  have n34: "near [3, 4] = 0"
    by (simp add: near_def B_def two)
  have n68: "near [6, 8] = 5"
    by (simp add: near_def B_def two sqrt_25 sqrt_100)
  have setF: "set F = {[3, 4], [6, 8]}" by (auto simp: F_def)
  have mx: "Max (near ` set F) = 5" by (simp add: setF n34 n68)
  have f755: "F ! 755 = [3, 4]" by (simp add: F_def nth_append)
  have f783: "F ! 783 = [6, 8]" by (simp add: F_def nth_append)
  obtain m u where sc: "score F B = Inr (Max (near ` set F), m, u)"
    and cell: "\<forall>r<28. length (m ! r) = 28 \<and> (\<forall>c<28. m ! r ! c = near (F ! (r * 28 + c)))"
    and pix: "\<forall>y<224. length (u ! y) = 224
          \<and> (\<forall>x<224.
                u ! y ! x =
                  (let sy = max 0 ((2 * real y - 7) / 16); y0 = nat \<lfloor>sy\<rfloor>;
                       y1 = min (y0 + 1) 27; ly = sy - real y0;
                       sx = max 0 ((2 * real x - 7) / 16); x0 = nat \<lfloor>sx\<rfloor>;
                       x1 = min (x0 + 1) 27; lx = sx - real x0
                   in (1 - ly) * ((1 - lx) * m ! y0 ! x0 + lx * m ! y0 ! x1)
                      + ly * ((1 - lx) * m ! y1 ! x0 + lx * m ! y1 ! x1))
                \<and> 0 \<le> u ! y ! x \<and> u ! y ! x \<le> Max (near ` set F))"
    using score_max_of_nearest_distances[OF h1 h2 h3 h4] unfolding near_def by blast
  have c1: "m ! 26 ! 27 = 0"
    using cell by (simp add: f755 n34)
  have c2: "m ! 27 ! 27 = 5"
    using cell by (simp add: f783 n68)
  have fy: "\<lfloor>(423::real) / 16\<rfloor> = 26" by simp
  have fx: "\<lfloor>(439::real) / 16\<rfloor> = 27" by simp
  have "u ! 215 ! 223 =
                  (let sy = max 0 ((2 * real 215 - 7) / 16); y0 = nat \<lfloor>sy\<rfloor>;
                       y1 = min (y0 + 1) 27; ly = sy - real y0;
                       sx = max 0 ((2 * real 223 - 7) / 16); x0 = nat \<lfloor>sx\<rfloor>;
                       x1 = min (x0 + 1) 27; lx = sx - real x0
                   in (1 - ly) * ((1 - lx) * m ! y0 ! x0 + lx * m ! y0 ! x1)
                      + ly * ((1 - lx) * m ! y1 ! x0 + lx * m ! y1 ! x1))"
    using pix by simp
  then have p: "u ! 215 ! 223 = 35 / 16"
    by (simp add: Let_def fy fx c1 c2)
  show ?thesis
    using h1 h2 unfolding F_def[symmetric] B_def[symmetric] by (simp add: sc mx c1 c2 p)
qed

text \<open>
  Claim C6. For the 784 patch vectors of an image and a memory bank with at least one
  vector, the score is not negative, and the greatest entry of the 28 x 28 map, before it
  is upsampled, is the score.
\<close>

theorem score_nonneg_and_map_max:
  assumes "length features = 784" and "memory_bank \<noteq> []"
    and "\<forall>q\<in>set features. \<forall>b\<in>set memory_bank. length q = length b"
  shows "\<exists>s_star segm_map upsampled.
      score features memory_bank = Inr (s_star, segm_map, upsampled)
    \<and> 0 \<le> s_star \<and> Max (set (concat segm_map)) = s_star"
proof -
  define ds where "ds = map (\<lambda>q. Min (l2 q ` set memory_bank)) features"
  have len: "length ds = 28 * 28" using assms(1) by (simp add: ds_def)
  have fne: "features \<noteq> []" using assms(1) by auto
  have "score features memory_bank =
      Inr (Max (set ds), rows_of 28 28 ds, interpolate_bilinear (rows_of 28 28 ds) 224 224)"
    using score_ok[OF assms] by (simp add: ds_def)
  moreover have "0 \<le> Max (set ds)"
    using Max_nearest_nonneg[OF fne assms(2)] by (simp add: ds_def)
  moreover have "Max (set (concat (rows_of 28 28 ds))) = Max (set ds)"
    by (simp add: concat_rows_of[OF len])
  ultimately show ?thesis by blast
qed

theorem score_nonneg_and_map_max_witness:
  "length (replicate 784 [3, 4 :: real]) = 784 \<and> [[0, 0 :: real]] \<noteq> []
   \<and> (\<exists>s_star segm_map upsampled.
        score (replicate 784 [3, 4]) [[0, 0]] = Inr (s_star, segm_map, upsampled)
        \<and> 0 \<le> s_star \<and> Max (set (concat segm_map)) = s_star)"
proof -
  have "\<forall>q\<in>set (replicate 784 [3, 4 :: real]). \<forall>b\<in>set [[0, 0 :: real]]. length q = length b"
    by simp
  from score_nonneg_and_map_max[OF _ _ this]
  show ?thesis by simp
qed

text \<open>
  Claim C7. Against a memory bank with no vector the scoring cell fails: the reduction
  \<^verbatim>\<open>torch.min(distances, dim=1)\<close> raises its IndexError, and neither a score nor a map is
  returned. This is the failure the specification names EmptyBankError; the cell raises it
  for no other bank, so it cannot be taken for a score of zero.
\<close>

theorem score_empty_bank_fails:
  assumes "features \<noteq> []"
  shows "score features [] = Inl IndexError
    \<and> (\<forall>memory_bank. score features memory_bank = Inl IndexError \<longrightarrow> memory_bank = [])"
  using score_empty_bank score_IndexError_only_empty by blast

theorem score_empty_bank_fails_witness:
  "[[1 :: real]] \<noteq> [] \<and> score [[1]] [] = Inl IndexError"
  using score_empty_bank_fails[of "[[1]]"] by simp

section \<open>Properties of the feature extractor\<close>

lemma avg_pool2d_ok:
  assumes "3 \<le> height f" "3 \<le> width f"
  shows "\<exists>a. avg_pool2d f = Inr a \<and> shape a = (channels f, height f - 2, width f - 2)
    \<and> (\<forall>c i j. entry a c i j =
          sum_list (map (\<lambda>di. sum_list (map (\<lambda>dj. entry f c (i + di) (j + dj)) [0..<3])) [0..<3]) / 9)"
proof -
  have "Suc (height f - 3) = height f - 2" "Suc (width f - 3) = width f - 2"
    using assms by arith+
  then show ?thesis using assms by (simp add: avg_pool2d_def shape_def)
qed

lemma avg_pool2d_too_small:
  "height f < 3 \<or> width f < 3 \<Longrightarrow> avg_pool2d f = Inl RuntimeError"
  by (simp add: avg_pool2d_def)

lemma adaptive_avg_pool2d_ok:
  assumes "0 < height a" "0 < width a"
  shows "\<exists>r. adaptive_avg_pool2d s a = Inr r \<and> shape r = (channels a, s, s)"
  using assms by (simp add: adaptive_avg_pool2d_def shape_def)

lemma smooth_resize_ok:
  assumes "3 \<le> height f" "3 \<le> width f"
  shows "\<exists>r. smooth_resize s f = Inr r \<and> shape r = (channels f, s, s)"
proof -
  obtain a where a: "avg_pool2d f = Inr a" "shape a = (channels f, height f - 2, width f - 2)"
    using avg_pool2d_ok[OF assms] by blast
  then have "0 < height a" "0 < width a" "channels a = channels f"
    using assms by (auto simp: shape_def)
  with adaptive_avg_pool2d_ok[of a s] a(1) show ?thesis
    by (auto simp: smooth_resize_def)
qed

lemma reshape_T_length: "length (reshape_T p) = height p * width p"
  by (simp add: reshape_T_def)

lemma reshape_T_row:
  "n < height p * width p \<Longrightarrow>
   reshape_T p ! n = map (\<lambda>c. entry p c (n div width p) (n mod width p)) [0..<channels p]"
  by (simp add: reshape_T_def)

lemma forward_two:
  assumes "3 \<le> height f0" "3 \<le> width f0" "3 \<le> height f1" "3 \<le> width f1"
  shows "\<exists>r0 r1 patch.
      smooth_resize (height f0) f0 = Inr r0 \<and> shape r0 = (channels f0, height f0, height f0)
    \<and> smooth_resize (height f0) f1 = Inr r1 \<and> shape r1 = (channels f1, height f0, height f0)
    \<and> forward [f0, f1] = Inr patch
    \<and> length patch = height f0 * height f0
    \<and> (\<forall>n < height f0 * height f0.
          patch ! n = map (\<lambda>c. entry r0 c (n div height f0) (n mod height f0)) [0..<channels f0]
                    @ map (\<lambda>c. entry r1 c (n div height f0) (n mod height f0)) [0..<channels f1])"
proof -
  define s where "s = height f0"
  obtain r0 where r0: "smooth_resize s f0 = Inr r0" "shape r0 = (channels f0, s, s)"
    using smooth_resize_ok[OF assms(1,2)] by blast
  obtain r1 where r1: "smooth_resize s f1 = Inr r1" "shape r1 = (channels f1, s, s)"
    using smooth_resize_ok[OF assms(3,4)] by blast
  define p where "p = \<lparr>channels = channels r0 + channels r1, height = height r0, width = width r0,
     entry = (\<lambda>c. if c < channels r0 then entry r0 c else entry r1 (c - channels r0))\<rparr>"
  have sh: "channels r0 = channels f0" "height r0 = s" "width r0 = s"
    "channels r1 = channels f1" "height r1 = s" "width r1 = s"
    using r0(2) r1(2) by (simp_all add: shape_def)
  have cat: "cat_channels [r0, r1] = Inr p"
    by (simp add: p_def sh)
  have fw: "forward [f0, f1] = Inr (reshape_T p)"
    by (simp add: forward_def s_def[symmetric] r0(1) r1(1) p_def sh)
  have len: "length (reshape_T p) = s * s"
    by (simp add: reshape_T_length p_def sh)
  have row: "reshape_T p ! n = map (\<lambda>c. entry r0 c (n div s) (n mod s)) [0..<channels f0]
                    @ map (\<lambda>c. entry r1 c (n div s) (n mod s)) [0..<channels f1]"
    if n: "n < s * s" for n
  proof -
    have "reshape_T p ! n = map (\<lambda>c. entry p c (n div s) (n mod s)) [0..<channels f0 + channels f1]"
      using n by (simp add: reshape_T_def p_def sh)
    also have "[0..<channels f0 + channels f1]
        = [0..<channels f0] @ map (\<lambda>c. c + channels f0) [0..<channels f1]"
      using upt_add_eq_append[of 0 "channels f0" "channels f1"]
        map_add_upt[of "channels f0" "channels f1"]
      by (simp only: add_0 add.commute[of "channels f1" "channels f0"])
    also have "map (\<lambda>c. entry p c (n div s) (n mod s)) \<dots>
        = map (\<lambda>c. entry r0 c (n div s) (n mod s)) [0..<channels f0]
          @ map (\<lambda>c. entry r1 c (n div s) (n mod s)) [0..<channels f1]"
      by (simp add: p_def sh comp_def)
    finally show ?thesis .
  qed
  have "smooth_resize s f0 = Inr r0 \<and> shape r0 = (channels f0, s, s)
    \<and> smooth_resize s f1 = Inr r1 \<and> shape r1 = (channels f1, s, s)
    \<and> forward [f0, f1] = Inr (reshape_T p)
    \<and> length (reshape_T p) = s * s
    \<and> (\<forall>n < s * s.
          reshape_T p ! n = map (\<lambda>c. entry r0 c (n div s) (n mod s)) [0..<channels f0]
                    @ map (\<lambda>c. entry r1 c (n div s) (n mod s)) [0..<channels f1])"
    using r0 r1 fw len row by simp
  then show ?thesis unfolding s_def by (intro exI)
qed

lemma tap_shapes_224: "resnet50_tap_shapes 224 = [(512, 28, 28), (1024, 14, 14)]"
  by (simp add: resnet50_tap_shapes_def conv_out_def)




text \<open>
  Claim C2, as the code has it. \<^verbatim>\<open>fmap_size\<close> is read from \<^verbatim>\<open>self.features[0]\<close>, the
  output of the earlier and finer tap (\<^verbatim>\<open>layer2\<close>): after smoothing, both maps are
  adaptively average-pooled to that resolution, and the patch grid has one row per
  position of the first captured map.
\<close>

theorem forward_grid_is_first_tap_resolution:
  assumes "3 \<le> height f0" and "3 \<le> width f0" and "3 \<le> height f1" and "3 \<le> width f1"
  shows "\<exists>r0 r1 patch.
      smooth_resize (height f0) f0 = Inr r0 \<and> height r0 = height f0 \<and> width r0 = height f0
    \<and> smooth_resize (height f0) f1 = Inr r1 \<and> height r1 = height f0 \<and> width r1 = height f0
    \<and> forward [f0, f1] = Inr patch
    \<and> length patch = height f0 * height f0"
proof -
  obtain r0 r1 patch where
    "smooth_resize (height f0) f0 = Inr r0" "shape r0 = (channels f0, height f0, height f0)"
    "smooth_resize (height f0) f1 = Inr r1" "shape r1 = (channels f1, height f0, height f0)"
    "forward [f0, f1] = Inr patch" "length patch = height f0 * height f0"
    using forward_two[OF assms] by blast
  then show ?thesis by (auto simp: shape_def)
qed

theorem forward_grid_is_first_tap_resolution_witness:
  "(3::nat) \<le> height \<lparr>channels = 512, height = 28, width = 28, entry = (\<lambda>c i j. 0)\<rparr>
   \<and> (3::nat) \<le> width \<lparr>channels = 512, height = 28, width = 28, entry = (\<lambda>c i j. 0)\<rparr>
   \<and> (3::nat) \<le> height \<lparr>channels = 1024, height = 14, width = 14, entry = (\<lambda>c i j. 0)\<rparr>
   \<and> (3::nat) \<le> width \<lparr>channels = 1024, height = 14, width = 14, entry = (\<lambda>c i j. 0)\<rparr>
   \<and> map_sum id length
        (forward [\<lparr>channels = 512, height = 28, width = 28, entry = (\<lambda>c i j. 0)\<rparr>,
                  \<lparr>channels = 1024, height = 14, width = 14, entry = (\<lambda>c i j. 0)\<rparr>])
     = Inr (28 * 28)"
  using forward_grid_is_first_tap_resolution
    [of "\<lparr>channels = 512, height = 28, width = 28, entry = (\<lambda>c i j. 0)\<rparr>"
        "\<lparr>channels = 1024, height = 14, width = 14, entry = (\<lambda>c i j. 0)\<rparr>"]
  by auto

text \<open>
  The claim as stated, that the grid has the resolution of the coarser, later tap, fails
  on the activations of a 224 x 224 image: the grid has 784 = 28 x 28 patches, the later
  tap has 14 x 14 = 196 positions.
\<close>

theorem forward_grid_coarser_layer_counterexample:
  "map_sum id length
     (forward [\<lparr>channels = 512, height = 28, width = 28, entry = (\<lambda>c i j. 0)\<rparr>,
               \<lparr>channels = 1024, height = 14, width = 14, entry = (\<lambda>c i j. 0)\<rparr>])
     = Inr 784
   \<and> height \<lparr>channels = 1024, height = 14, width = 14, entry = (\<lambda>c i j. 0::real)\<rparr>
     * width \<lparr>channels = 1024, height = 14, width = 14, entry = (\<lambda>c i j. 0::real)\<rparr> = 196"
  using forward_two
    [of "\<lparr>channels = 512, height = 28, width = 28, entry = (\<lambda>c i j. 0)\<rparr>"
        "\<lparr>channels = 1024, height = 14, width = 14, entry = (\<lambda>c i j. 0)\<rparr>"]
  by auto

text \<open>
  Claim C10. For the two activations ResNet-50 yields on a 224 x 224 image
  (512 x 28 x 28 from \<^verbatim>\<open>layer2\<close>, 1024 x 14 x 14 from \<^verbatim>\<open>layer3\<close>, in the order the hooks
  were registered), the extractor returns 784 patch vectors of dimension 1536; the first
  512 components of a patch are the earlier layer's channels at the patch's position
  (row \<open>n div 28\<close>, column \<open>n mod 28\<close>), the last 1024 the later layer's. The scorer's
  \<^verbatim>\<open>view(1, 1, 28, 28)\<close> succeeds exactly on sequences of as many entries as there are
  patches.
\<close>

theorem forward_224_gives_784_patches_of_1536:
  assumes "map shape features = resnet50_tap_shapes 224"
  shows "\<exists>r0 r1 patch.
      smooth_resize 28 (features ! 0) = Inr r0
    \<and> smooth_resize 28 (features ! 1) = Inr r1
    \<and> forward features = Inr patch
    \<and> length patch = 784
    \<and> (\<forall>n<784. length (patch ! n) = 1536
          \<and> take 512 (patch ! n) = map (\<lambda>c. entry r0 c (n div 28) (n mod 28)) [0..<512]
          \<and> drop 512 (patch ! n) = map (\<lambda>c. entry r1 c (n div 28) (n mod 28)) [0..<1024])
    \<and> (\<forall>dist_score. (view_28_28 dist_score \<noteq> Inl RuntimeError) = (length dist_score = length patch))"
proof -
  from assms obtain f0 f1 where fs: "features = [f0, f1]"
    and s0: "shape f0 = (512, 28, 28)" and s1: "shape f1 = (1024, 14, 14)"
    by (auto simp: tap_shapes_224 map_eq_Cons_conv)
  have d: "channels f0 = 512" "height f0 = 28" "width f0 = 28"
    "channels f1 = 1024" "height f1 = 14" "width f1 = 14"
    using s0 s1 by (simp_all add: shape_def)
  have g: "3 \<le> height f0" "3 \<le> width f0" "3 \<le> height f1" "3 \<le> width f1"
    by (simp_all add: d)
  obtain r0 r1 patch where r:
    "smooth_resize 28 f0 = Inr r0" "smooth_resize 28 f1 = Inr r1"
    "forward [f0, f1] = Inr patch" "length patch = 28 * 28"
    and row: "\<forall>n < 28 * 28.
          patch ! n = map (\<lambda>c. entry r0 c (n div 28) (n mod 28)) [0..<512]
                    @ map (\<lambda>c. entry r1 c (n div 28) (n mod 28)) [0..<1024]"
    using forward_two[OF g] unfolding d by blast
  have rows: "length (patch ! n) = 1536
          \<and> take 512 (patch ! n) = map (\<lambda>c. entry r0 c (n div 28) (n mod 28)) [0..<512]
          \<and> drop 512 (patch ! n) = map (\<lambda>c. entry r1 c (n div 28) (n mod 28)) [0..<1024]"
    if "n < 784" for n
  proof -
    have "patch ! n = map (\<lambda>c. entry r0 c (n div 28) (n mod 28)) [0..<512]
                    @ map (\<lambda>c. entry r1 c (n div 28) (n mod 28)) [0..<1024]"
      using row that by simp
    then show ?thesis by simp
  qed
  have v: "(view_28_28 ds \<noteq> Inl RuntimeError) = (length ds = length patch)" for ds
    using r(4) by (simp add: view_28_28_def)
  show ?thesis
    using r rows v unfolding fs by (intro exI[of _ r0] exI[of _ r1] exI[of _ patch]) simp
qed

theorem forward_224_gives_784_patches_of_1536_witness:
  "map shape [\<lparr>channels = 512, height = 28, width = 28, entry = (\<lambda>c i j. 0)\<rparr>,
              \<lparr>channels = 1024, height = 14, width = 14, entry = (\<lambda>c i j. 0)\<rparr>]
     = resnet50_tap_shapes 224
   \<and> map_sum id length
        (forward [\<lparr>channels = 512, height = 28, width = 28, entry = (\<lambda>c i j. 0)\<rparr>,
                  \<lparr>channels = 1024, height = 14, width = 14, entry = (\<lambda>c i j. 0)\<rparr>])
     = Inr 784"
proof -
  have h: "map shape [\<lparr>channels = 512, height = 28, width = 28, entry = (\<lambda>c i j. 0)\<rparr>,
              \<lparr>channels = 1024, height = 14, width = 14, entry = (\<lambda>c i j. 0)\<rparr>]
     = resnet50_tap_shapes 224"
    by (simp add: shape_def resnet50_tap_shapes_def conv_out_def)
  from forward_224_gives_784_patches_of_1536[OF h] h show ?thesis by auto
qed

section \<open>Properties of the memory bank and of the statistical threshold\<close>

lemma cat_rows_ok:
  assumes "ms \<noteq> []" "\<forall>r\<in>set (concat ms). length r = d"
  shows "cat_rows ms = Inr (concat ms)"
proof -
  have "list_all (\<lambda>r. length r = length (hd (concat ms))) (concat ms)"
  proof (cases "concat ms")
    case Nil show ?thesis unfolding Nil by simp
  next
    case (Cons a list)
    then have "length (hd (concat ms)) = d" using assms(2) by simp
    then show ?thesis using assms(2) by (simp add: list_all_iff)
  qed
  then show ?thesis using assms(1) by (simp add: cat_rows_def)
qed

lemma mset_indexed_subset:
  assumes "distinct idxs" "\<forall>i\<in>set idxs. i < length xs"
  shows "mset (map (\<lambda>i. xs ! i) idxs) \<subseteq># mset xs"
proof -
  have "mset idxs = mset_set (set idxs)"
    using assms(1) by (simp add: mset_set_set)
  also have "\<dots> \<subseteq># mset_set {0..<length xs}"
    using assms(2) by (intro subset_imp_msubset_mset_set) auto
  also have "\<dots> = mset [0..<length xs]" by simp
  finally have "image_mset (\<lambda>i. xs ! i) (mset idxs) \<subseteq># image_mset (\<lambda>i. xs ! i) (mset [0..<length xs])"
    by (rule image_mset_subseteq_mono)
  moreover have "image_mset (\<lambda>i. xs ! i) (mset [0..<length xs]) = mset xs"
    by (metis map_nth mset_map)
  ultimately show ?thesis by simp
qed

lemma is_permutation_iff:
  "is_permutation n p \<longleftrightarrow> distinct p \<and> set p = {0..<n}"
proof
  assume "is_permutation n p"
  then have m: "mset p = mset [0..<n]" by (simp add: is_permutation_def)
  have "distinct p" using mset_eq_imp_distinct_iff[OF m] by simp
  moreover have "set p = {0..<n}" using mset_eq_setD[OF m] by simp
  ultimately show "distinct p \<and> set p = {0..<n}" by simp
next
  assume "distinct p \<and> set p = {0..<n}"
  then have "mset p = mset [0..<n]"
    using set_eq_iff_mset_eq_distinct[of p "[0..<n]"] by simp
  then show "is_permutation n p" by (simp add: is_permutation_def)
qed

lemma is_permutation_length: "is_permutation n p \<Longrightarrow> length p = n"
  using mset_eq_length[of p "[0..<n]"] by (simp add: is_permutation_def)

lemma drawn_indices:
  assumes "is_permutation n p" "k \<le> n"
  shows "length (take k p) = k" "distinct (take k p)" "\<forall>i\<in>set (take k p). i < n"
proof -
  have d: "distinct p" "set p = {0..<n}" using assms(1) by (simp_all add: is_permutation_iff)
  show "length (take k p) = k" using is_permutation_length[OF assms(1)] assms(2) by simp
  show "distinct (take k p)" using d(1) by simp
  show "\<forall>i\<in>set (take k p). i < n"
    using d(2) set_take_subset[of k p] by auto
qed

lemma build_ok:
  assumes "per_image \<noteq> []" and "\<forall>r\<in>set (concat per_image). length r = d"
    and "is_permutation (length (concat per_image)) (permutation (length (concat per_image)))"
  shows "build permutation per_image =
      Inr (map (\<lambda>i. concat per_image ! i)
             (take (length (concat per_image) div 10) (permutation (length (concat per_image)))))"
proof -
  define pool where "pool = concat per_image"
  define idxs where "idxs = take (length pool div 10) (permutation (length pool))"
  have c: "cat_rows per_image = Inr pool"
    unfolding pool_def by (rule cat_rows_ok[OF assms(1,2)])
  have r: "random_choice permutation (length pool) (length pool div 10) = Inr idxs"
    by (simp add: random_choice_def idxs_def)
  have "\<forall>i\<in>set idxs. i < length pool"
    unfolding idxs_def using assms(3) by (intro drawn_indices(3)) (simp_all add: pool_def)
  then have i: "list_all (\<lambda>i. i < length pool) idxs" by (simp add: list_all_iff)
  show ?thesis
    unfolding pool_def[symmetric] idxs_def[symmetric] by (simp add: build_def c r index_rows_def i)
qed

lemma permutations_with_prefix:
  assumes "length idxs = k" "distinct idxs" "set idxs \<subseteq> {0..<n}"
  shows "card {p. is_permutation n p \<and> take k p = idxs} = fact (n - k)"
proof -
  define rest where "rest = {0..<n} - set idxs"
  have kn: "k \<le> n"
    using card_mono[OF _ assms(3)] distinct_card[OF assms(2)] assms(1) by simp
  have cr: "card rest = n - k"
    unfolding rest_def using assms by (simp add: card_Diff_subset distinct_card)
  have fr: "finite rest" by (simp add: rest_def)
  define R where "R = {r. length r = n - k \<and> distinct r \<and> set r \<subseteq> rest}"
  have "{p. is_permutation n p \<and> take k p = idxs} = (\<lambda>r. idxs @ r) ` R"
  proof (intro equalityI subsetI)
    fix p assume "p \<in> {p. is_permutation n p \<and> take k p = idxs}"
    then have p: "distinct p" "set p = {0..<n}" "take k p = idxs" "length p = n"
      by (simp_all add: is_permutation_iff is_permutation_length)
    have split: "p = idxs @ drop k p" using p(3) append_take_drop_id[of k p] by simp
    have "distinct (idxs @ drop k p)" "set (idxs @ drop k p) = {0..<n}"
      using p(1,2) split by simp_all
    then have "distinct (drop k p)" "set (drop k p) \<subseteq> rest"
      by (auto simp: rest_def)
    moreover have "length (drop k p) = n - k" using p(4) by simp
    ultimately have "drop k p \<in> R" by (simp add: R_def)
    with split show "p \<in> (\<lambda>r. idxs @ r) ` R" by blast
  next
    fix p assume "p \<in> (\<lambda>r. idxs @ r) ` R"
    then obtain r where r: "p = idxs @ r" "length r = n - k" "distinct r" "set r \<subseteq> rest"
      by (auto simp: R_def)
    have "card (set r) = card rest" using r(2,3) cr by (simp add: distinct_card)
    then have sr: "set r = rest" using card_subset_eq[OF fr r(4)] by simp
    have "distinct p" using r(3) assms(2) sr by (auto simp: r(1) rest_def)
    moreover have "set p = {0..<n}" using sr assms(3) by (auto simp: r(1) rest_def)
    ultimately have "is_permutation n p" by (simp add: is_permutation_iff)
    moreover have "take k p = idxs" using assms(1) by (simp add: r(1))
    ultimately show "p \<in> {p. is_permutation n p \<and> take k p = idxs}" by simp
  qed
  moreover have "inj_on (\<lambda>r. idxs @ r) R" by (rule inj_onI) simp
  ultimately have "card {p. is_permutation n p \<and> take k p = idxs} = card R"
    by (simp add: card_image)
  also have "\<dots> = \<Prod>{card rest - (n - k) + 1 .. card rest}"
    unfolding R_def using fr cr by (intro card_lists_distinct_length_eq) simp_all
  also have "\<dots> = fact (n - k)" by (simp add: cr fact_prod)
  finally show ?thesis .
qed

lemma round_example: "spec_bank_size (1 / 10) 1568 = 157"
  by (simp add: spec_bank_size_def round_def)

lemma np_mean_nonempty: "xs \<noteq> [] \<Longrightarrow> np_mean xs = Some (sum_list xs / real (length xs))"
  by (simp add: np_mean_def)

lemma np_std_nonempty:
  "xs \<noteq> [] \<Longrightarrow> np_std xs =
     Some (sqrt (sum_list (map (\<lambda>x. (x - sum_list xs / real (length xs))\<^sup>2) xs) / real (length xs)))"
  by (simp add: np_std_def np_mean_def comp_def)

lemma variance_nonneg:
  "0 \<le> sum_list (map (\<lambda>x. (x - m)\<^sup>2) xs) / real (length xs)"
  by (intro divide_nonneg_nonneg sum_list_nonneg) auto

lemma calibrate_statistical_nonempty:
  "xs \<noteq> [] \<Longrightarrow> calibrate_statistical xs k =
     Some (sum_list xs / real (length xs)
           + k * sqrt (sum_list (map (\<lambda>x. (x - sum_list xs / real (length xs))\<^sup>2) xs) / real (length xs)))"
  by (simp add: calibrate_statistical_def np_mean_nonempty np_std_nonempty)

text \<open>
  Claim C3, as the code has it. The notebook has no sample fraction: the bank holds
  \<open>pooled_count div 10\<close> vectors, one tenth of the pooled count rounded down. They are
  the pooled vectors at the first \<open>pooled_count div 10\<close> positions of the permutation the
  generator returns: positions that differ from one another, so every bank vector is a
  pooled vector and none is taken more often than the pool holds it. The draw is uniform:
  every list of \<open>pooled_count div 10\<close> different positions is the draw for the same
  number of the generator's equally likely permutations. The bank is empty exactly when
  fewer than ten vectors were pooled.
\<close>

theorem build_bank_is_tenth_of_pool:
  assumes "per_image \<noteq> []" and "\<forall>r\<in>set (concat per_image). length r = d"
    and "is_permutation (length (concat per_image)) (permutation (length (concat per_image)))"
  shows "\<exists>bank drawn.
      drawn = take (length (concat per_image) div 10) (permutation (length (concat per_image)))
    \<and> build permutation per_image = Inr bank
    \<and> bank = map (\<lambda>i. concat per_image ! i) drawn
    \<and> length drawn = length (concat per_image) div 10
    \<and> distinct drawn
    \<and> (\<forall>i\<in>set drawn. i < length (concat per_image))
    \<and> length bank = length (concat per_image) div 10
    \<and> set bank \<subseteq> set (concat per_image)
    \<and> mset bank \<subseteq># mset (concat per_image)
    \<and> (bank = [] \<longleftrightarrow> length (concat per_image) < 10)
    \<and> (\<forall>idxs. length idxs = length (concat per_image) div 10 \<and> distinct idxs
               \<and> set idxs \<subseteq> {0..<length (concat per_image)} \<longrightarrow>
          card {p. is_permutation (length (concat per_image)) p
                   \<and> take (length (concat per_image) div 10) p = idxs}
            = fact (length (concat per_image) - length (concat per_image) div 10))"
proof -
  define pool where "pool = concat per_image"
  define drawn where "drawn = take (length pool div 10) (permutation (length pool))"
  define bank where "bank = map (\<lambda>i. pool ! i) drawn"
  have p: "is_permutation (length pool) (permutation (length pool))"
    using assms(3) by (simp add: pool_def)
  have k: "length pool div 10 \<le> length pool" by simp
  have o: "length drawn = length pool div 10" "distinct drawn" "\<forall>i\<in>set drawn. i < length pool"
    unfolding drawn_def
    using drawn_indices(1)[OF p k] drawn_indices(2)[OF p k] drawn_indices(3)[OF p k]
    by simp_all
  have b: "build permutation per_image = Inr bank"
    unfolding bank_def drawn_def pool_def using assms by (rule build_ok[where permutation = permutation])
  have l: "length bank = length pool div 10" by (simp add: bank_def o(1))
  have s: "set bank \<subseteq> set pool" using o(3) by (auto simp: bank_def)
  have m: "mset bank \<subseteq># mset pool"
    unfolding bank_def by (rule mset_indexed_subset[OF o(2,3)])
  have "bank = [] \<longleftrightarrow> length bank = 0" by simp
  also have "\<dots> \<longleftrightarrow> length pool < 10" unfolding l by (simp add: div_eq_0_iff)
  finally have e: "bank = [] \<longleftrightarrow> length pool < 10" .
  have u: "\<forall>idxs. length idxs = length pool div 10 \<and> distinct idxs
               \<and> set idxs \<subseteq> {0..<length pool} \<longrightarrow>
          card {p. is_permutation (length pool) p \<and> take (length pool div 10) p = idxs}
            = fact (length pool - length pool div 10)"
    by (auto intro: permutations_with_prefix)
  have "drawn = take (length pool div 10) (permutation (length pool))
    \<and> build permutation per_image = Inr bank
    \<and> bank = map (\<lambda>i. pool ! i) drawn
    \<and> length drawn = length pool div 10
    \<and> distinct drawn
    \<and> (\<forall>i\<in>set drawn. i < length pool)
    \<and> length bank = length pool div 10
    \<and> set bank \<subseteq> set pool
    \<and> mset bank \<subseteq># mset pool
    \<and> (bank = [] \<longleftrightarrow> length pool < 10)"
    using b o l s m e by (simp add: drawn_def bank_def)
  with u show ?thesis unfolding pool_def by blast
qed

theorem build_bank_is_tenth_of_pool_witness:
  "[[[1], [2], [3], [4], [5], [6], [7], [8], [9], [10], [11], [12]],
    [[13], [14], [15], [16], [17], [18], [19], [20], [21], [22], [23], [24], [25 :: real]]] \<noteq> []
   \<and> is_permutation 25 (rev [0..<25])
   \<and> build (\<lambda>n. rev [0..<n])
        [[[1], [2], [3], [4], [5], [6], [7], [8], [9], [10], [11], [12]],
         [[13], [14], [15], [16], [17], [18], [19], [20], [21], [22], [23], [24], [25]]]
       = Inr [[25], [24]]
   \<and> card {p. is_permutation 25 p \<and> take 2 p = [24, 23]} = fact 23"
proof -
  define X where "X = [[[1], [2], [3], [4], [5], [6], [7], [8], [9], [10], [11], [12]],
    [[13], [14], [15], [16], [17], [18], [19], [20], [21], [22], [23], [24], [25 :: real]]]"
  have n: "length (concat X) = 25" by (simp add: X_def)
  have x: "X \<noteq> []" by (simp add: X_def)
  have h: "\<forall>r\<in>set (concat X). length r = 1" by (simp add: X_def)
  have c: "is_permutation 25 (rev [0..<25])" by (simp add: is_permutation_def)
  then have c': "is_permutation (length (concat X)) ((\<lambda>n. rev [0..<n]) (length (concat X)))"
    unfolding n by simp
  have t: "take 2 (rev [0..<25]) = [24, 23]"
    by (simp add: take_rev drop_upt upt_rec)
  obtain bank where b: "build (\<lambda>n. rev [0..<n]) X = Inr bank"
    "bank = map (\<lambda>i. concat X ! i) (take (length (concat X) div 10) (rev [0..<length (concat X)]))"
    and u: "\<forall>idxs. length idxs = length (concat X) div 10 \<and> distinct idxs
               \<and> set idxs \<subseteq> {0..<length (concat X)} \<longrightarrow>
          card {p. is_permutation (length (concat X)) p
                   \<and> take (length (concat X) div 10) p = idxs}
            = fact (length (concat X) - length (concat X) div 10)"
    using build_bank_is_tenth_of_pool[where permutation = "\<lambda>n. rev [0..<n]", OF x h c'] by blast
  have "bank = map (\<lambda>i. concat X ! i) [24, 23]"
    using b(2) unfolding n by (simp add: t)
  then have v: "bank = [[25], [24]]" by (simp add: X_def)
  have "card {p. is_permutation 25 p \<and> take 2 p = [24, 23]} = fact 23"
    using u[rule_format, of "[24, 23]"] unfolding n by simp
  then show ?thesis using b(1) v c x unfolding X_def by simp
qed

text \<open>
  The claim as stated, with the size \<open>round (sample_fraction * pooled_count)\<close>, fails for
  two reference images at the fraction one tenth: 1568 vectors are pooled, the bank holds
  156 of them, and the rounded product is 157.
\<close>

theorem build_bank_size_round_counterexample:
  "map_sum id length (build (\<lambda>n. [0..<n]) [replicate 784 [0], replicate 784 [0]]) = Inr 156
   \<and> spec_bank_size (1 / 10) (length (concat [replicate 784 [0 :: real], replicate 784 [0]])) = 157"
proof -
  have n: "length (concat [replicate 784 [0 :: real], replicate 784 [0]]) = 1568" by simp
  have h: "\<forall>r\<in>set (concat [replicate 784 [0 :: real], replicate 784 [0]]). length r = 1"
    by simp
  have c: "is_permutation 1568 [0..<1568]" by (simp add: is_permutation_def)
  have "build (\<lambda>n. [0..<n]) [replicate 784 [0 :: real], replicate 784 [0]]
    = Inr (map (\<lambda>i. concat [replicate 784 [0 :: real], replicate 784 [0]] ! i)
        (take (1568 div 10) [0..<1568]))"
    using build_ok[of "[replicate 784 [0 :: real], replicate 784 [0]]" 1 "\<lambda>n. [0..<n]"] h c
    unfolding n by simp
  then show ?thesis unfolding n by (simp add: round_example)
qed

text \<open>
  Claim C9. On a non-empty list of scores the statistical threshold is the mean plus \<open>k\<close>
  times the population standard deviation (the notebook's cell is the case \<open>k = 3\<close>),
  and it does not decrease when \<open>k\<close> grows.
\<close>

theorem calibrate_statistical_mean_plus_k_std:
  assumes "scores \<noteq> []"
  shows "calibrate_statistical scores k =
      Some (sum_list scores / real (length scores)
            + k * sqrt (sum_list (map (\<lambda>x. (x - sum_list scores / real (length scores))\<^sup>2) scores)
                        / real (length scores)))
    \<and> best_threshold_good scores = calibrate_statistical scores 3
    \<and> (\<forall>k'. k \<le> k' \<longrightarrow>
          the (calibrate_statistical scores k) \<le> the (calibrate_statistical scores k'))"
proof -
  define sd where "sd = sqrt (sum_list (map (\<lambda>x. (x - sum_list scores / real (length scores))\<^sup>2) scores)
                        / real (length scores))"
  have "0 \<le> sd" unfolding sd_def by (rule real_sqrt_ge_zero[OF variance_nonneg])
  then have "k * sd \<le> k' * sd" if "k \<le> k'" for k'
    using that by (simp add: mult_right_mono)
  then show ?thesis
    by (simp add: calibrate_statistical_nonempty[OF assms] best_threshold_good_def sd_def)
qed

theorem calibrate_statistical_mean_plus_k_std_witness:
  "[1, 3 :: real] \<noteq> [] \<and> best_threshold_good [1, 3] = Some 5
   \<and> the (calibrate_statistical [1, 3] 2) \<le> the (calibrate_statistical [1, 3] 3)"
  using calibrate_statistical_mean_plus_k_std[of "[1, 3]" 3]
    calibrate_statistical_mean_plus_k_std[of "[1, 3]" 2]
  by simp

section \<open>Properties of the metric-optimal threshold\<close>

subsection \<open>The position of the first greatest entry\<close>

lemma argmax_loop_spec:
  assumes "length pre = i" "best < i" "pre ! best = v"
    and "\<forall>j<i. pre ! j \<le> v" and "\<forall>j<best. pre ! j < v"
  shows "argmax_loop best v i xs < length (pre @ xs)
    \<and> (\<forall>j<length (pre @ xs). (pre @ xs) ! j \<le> (pre @ xs) ! argmax_loop best v i xs)
    \<and> (\<forall>j<argmax_loop best v i xs. (pre @ xs) ! j < (pre @ xs) ! argmax_loop best v i xs)"
  using assms
proof (induction xs arbitrary: pre best v i)
  case Nil
  then show ?case by simp
next
  case (Cons x xs)
  show ?case
  proof (cases "v < x")
    case True
    have 1: "length (pre @ [x]) = Suc i" using Cons.prems(1) by simp
    have 2: "i < Suc i" by simp
    have 3: "(pre @ [x]) ! i = x" using Cons.prems(1) by (simp add: nth_append)
    have 4: "\<forall>j<Suc i. (pre @ [x]) ! j \<le> x"
    proof (intro allI impI)
      fix j assume "j < Suc i"
      then show "(pre @ [x]) ! j \<le> x"
        using Cons.prems(1,4) True by (cases "j = i") (auto simp: nth_append less_Suc_eq)
    qed
    have 5: "\<forall>j<i. (pre @ [x]) ! j < x"
      using Cons.prems(1,4) True by (auto simp: nth_append)
    from Cons.IH[OF 1 2 3 4 5] True show ?thesis by simp
  next
    case False
    have 1: "length (pre @ [x]) = Suc i" using Cons.prems(1) by simp
    have 2: "best < Suc i" using Cons.prems(2) by simp
    have 3: "(pre @ [x]) ! best = v" using Cons.prems(1,2,3) by (simp add: nth_append)
    have 4: "\<forall>j<Suc i. (pre @ [x]) ! j \<le> v"
    proof (intro allI impI)
      fix j assume "j < Suc i"
      then show "(pre @ [x]) ! j \<le> v"
        using Cons.prems(1,4) False by (cases "j = i") (auto simp: nth_append less_Suc_eq)
    qed
    have 5: "\<forall>j<best. (pre @ [x]) ! j < v"
      using Cons.prems(1,2,5) by (auto simp: nth_append)
    from Cons.IH[OF 1 2 3 4 5] False show ?thesis by simp
  qed
qed

lemma np_argmax_spec:
  assumes "xs \<noteq> []"
  shows "\<exists>i. np_argmax xs = Inr i \<and> i < length xs
    \<and> (\<forall>j<length xs. xs ! j \<le> xs ! i) \<and> (\<forall>j<i. xs ! j < xs ! i)"
proof -
  obtain x rest where xs: "xs = x # rest" using assms by (cases xs) auto
  have "argmax_loop 0 x 1 rest < length ([x] @ rest)
    \<and> (\<forall>j<length ([x] @ rest). ([x] @ rest) ! j \<le> ([x] @ rest) ! argmax_loop 0 x 1 rest)
    \<and> (\<forall>j<argmax_loop 0 x 1 rest. ([x] @ rest) ! j < ([x] @ rest) ! argmax_loop 0 x 1 rest)"
    by (rule argmax_loop_spec) simp_all
  then show ?thesis unfolding xs by simp
qed

lemma np_argmax_all_le_first:
  assumes "xs \<noteq> []" "\<forall>x\<in>set xs. x \<le> hd xs"
  shows "np_argmax xs = Inr 0"
proof -
  obtain i where i: "np_argmax xs = Inr i" "i < length xs" "\<forall>j<i. xs ! j < xs ! i"
    using np_argmax_spec[OF assms(1)] by blast
  have "i = 0"
  proof (rule ccontr)
    assume "i \<noteq> 0"
    then have "xs ! 0 < xs ! i" using i(3) by simp
    moreover have "xs ! i \<le> hd xs" using assms(2) i(2) by simp
    moreover have "hd xs = xs ! 0" using assms(1) by (simp add: hd_conv_nth)
    ultimately show False by simp
  qed
  with i(1) show ?thesis by simp
qed

lemma np_argmax_last_greatest:
  assumes "\<forall>x\<in>set pre. x < z"
  shows "np_argmax (pre @ [z]) = Inr (length pre)"
proof -
  obtain i where i: "np_argmax (pre @ [z]) = Inr i" "i < length (pre @ [z])"
    "\<forall>j<length (pre @ [z]). (pre @ [z]) ! j \<le> (pre @ [z]) ! i"
    using np_argmax_spec[of "pre @ [z]"] by auto
  have "i = length pre"
  proof (rule ccontr)
    assume "i \<noteq> length pre"
    then have lt: "i < length pre" using i(2) by simp
    then have "(pre @ [z]) ! i < z" using assms by (simp add: nth_append)
    moreover have "(pre @ [z]) ! length pre \<le> (pre @ [z]) ! i"
      using i(3)[rule_format, of "length pre"] by simp
    ultimately show False by simp
  qed
  with i(1) show ?thesis by simp
qed

subsection \<open>Candidates and the returned threshold\<close>

lemma subseq_set_subset: "subseq xs ys \<Longrightarrow> set xs \<subseteq> set ys"
  by (auto elim: list_emb_set)

lemma sorted_wrt_subseq:
  "subseq xs ys \<Longrightarrow> sorted_wrt P ys \<Longrightarrow> sorted_wrt P xs"
proof (induction rule: list_emb.induct)
  case (list_emb_Nil ys)
  then show ?case by simp
next
  case (list_emb_Cons xs ys y)
  then show ?case by simp
next
  case (list_emb_Cons2 x y xs ys)
  then have "set xs \<subseteq> set ys" by (intro subseq_set_subset)
  with list_emb_Cons2 show ?case by auto
qed

lemma descending_scores:
  "sorted_wrt (\<lambda>a b. b < a) (rev (sort (remdups (ys :: real list))))"
  by (simp add: sorted_wrt_rev strict_sorted_iff)

lemma optimal_idxs_subseq: "subseq (optimal_idxs fps tps) [0..<length fps]"
  by (simp add: optimal_idxs_def Let_def)

lemma roc_curve_ok:
  assumes "length y_true = length y_score" and "y_score \<noteq> []"
  shows "\<exists>kept. roc_curve y_true y_score = Inr (Infinity # map Finite kept)
    \<and> subseq kept (rev (sort (remdups y_score)))"
proof -
  define thr where "thr = rev (sort (remdups y_score))"
  define idxs where "idxs = optimal_idxs (map (fps_at y_true y_score) thr) (map (tps_at y_true y_score) thr)"
  have r: "roc_curve y_true y_score = Inr (Infinity # map Finite (map (\<lambda>i. thr ! i) idxs))"
    using assms by (simp add: roc_curve_def Let_def thr_def idxs_def comp_def)
  have "subseq idxs [0..<length thr]"
    unfolding idxs_def using optimal_idxs_subseq[of "map (fps_at y_true y_score) thr"] by simp
  then have "subseq (map (\<lambda>i. thr ! i) idxs) (map (\<lambda>i. thr ! i) [0..<length thr])"
    by (rule subseq_map)
  then have "subseq (map (\<lambda>i. thr ! i) idxs) thr" by (simp add: map_nth)
  with r show ?thesis unfolding thr_def by blast
qed

lemma sort_example: "sort (remdups [4, 3, 2, 1 :: real]) = [1, 2, 3, 4]"
  by simp

lemma roc_curve_example:
  "roc_curve [True, False, False, True] [4, 3, 2, 1]
     = Inr [Infinity, Finite 4, Finite 2, Finite 1]"
  by (simp add: roc_curve_def sort_example tps_at_def fps_at_def optimal_idxs_def
      second_diff_def upt_rec numeral_nat)

text \<open>
  Claim C4, as the code has it. The candidates are the thresholds \<^verbatim>\<open>roc_curve\<close>
  returns: \<^verbatim>\<open>np.inf\<close> first, then observed scores, each at most once and in descending
  order (a subsequence of the distinct scores sorted downwards: intermediate points of
  the curve are dropped). The F1 score of the rule ``anomalous when score \<open>\<ge>\<close> threshold''
  is computed for every candidate, and the returned candidate has the greatest F1 score;
  among candidates of greatest F1 score it is the first in that order, every earlier
  candidate having a strictly smaller one.
\<close>

theorem calibrate_by_metric_first_max_in_roc_order:
  assumes "length y_true = length y_score" and "y_score \<noteq> []"
  shows "\<exists>kept i.
      roc_curve y_true y_score = Inr (Infinity # map Finite kept)
    \<and> subseq kept (rev (sort (remdups y_score)))
    \<and> set kept \<subseteq> set y_score
    \<and> sorted_wrt (\<lambda>a b. b < a) kept
    \<and> i < length (Infinity # map Finite kept)
    \<and> calibrate_by_metric y_true y_score = Inr ((Infinity # map Finite kept) ! i)
    \<and> (\<forall>j<length (Infinity # map Finite kept).
          f1_at y_true y_score ((Infinity # map Finite kept) ! j)
            \<le> f1_at y_true y_score ((Infinity # map Finite kept) ! i))
    \<and> (\<forall>j<i. f1_at y_true y_score ((Infinity # map Finite kept) ! j)
            < f1_at y_true y_score ((Infinity # map Finite kept) ! i))"
proof -
  obtain kept where k: "roc_curve y_true y_score = Inr (Infinity # map Finite kept)"
    "subseq kept (rev (sort (remdups y_score)))"
    using roc_curve_ok[OF assms] by blast
  define ts where "ts = Infinity # map Finite kept"
  define fs where "fs = map (f1_at y_true y_score) ts"
  have "fs \<noteq> []" by (simp add: fs_def ts_def)
  then obtain i where i: "np_argmax fs = Inr i" "i < length fs"
    "\<forall>j<length fs. fs ! j \<le> fs ! i" "\<forall>j<i. fs ! j < fs ! i"
    using np_argmax_spec by blast
  have c: "calibrate_by_metric y_true y_score = Inr (ts ! i)"
    using i(1) by (simp add: calibrate_by_metric_def k(1) ts_def[symmetric] fs_def[symmetric])
  have l: "length fs = length ts" by (simp add: fs_def)
  have n: "fs ! j = f1_at y_true y_score (ts ! j)" if "j < length ts" for j
    using that by (simp add: fs_def)
  have a: "\<forall>j<length ts. f1_at y_true y_score (ts ! j) \<le> f1_at y_true y_score (ts ! i)"
    using i(2,3) n l by simp
  have b: "\<forall>j<i. f1_at y_true y_score (ts ! j) < f1_at y_true y_score (ts ! i)"
    using i(2,4) n l by simp
  have s: "set kept \<subseteq> set y_score"
    using subseq_set_subset[OF k(2)] by simp
  have d: "sorted_wrt (\<lambda>a b. b < a) kept"
    using sorted_wrt_subseq[OF k(2) descending_scores] .
  have il: "i < length ts" using i(2) l by simp
  show ?thesis
    using k c a b s d il unfolding ts_def
    by (intro exI[of _ kept] exI[of _ i]) simp
qed

theorem calibrate_by_metric_first_max_in_roc_order_witness:
  "length [True, False, False, True] = length [4, 3, 2, 1 :: real] \<and> [4, 3, 2, 1 :: real] \<noteq> []
   \<and> (\<exists>kept i. roc_curve [True, False, False, True] [4, 3, 2, 1] = Inr (Infinity # map Finite kept)
         \<and> calibrate_by_metric [True, False, False, True] [4, 3, 2, 1]
           = Inr ((Infinity # map Finite kept) ! i))"
  using calibrate_by_metric_first_max_in_roc_order[of "[True, False, False, True]" "[4, 3, 2, 1]"]
  by auto

text \<open>
  The claim as stated, with ties resolved in ascending order of the scores, fails on four
  images with scores 4, 3, 2, 1 and labels 1, 0, 0, 1: the thresholds 4 and 1 both reach
  the greatest F1 score 2/3; the cell returns 4, the ascending rule returns 1. The
  observed score 3 is not among the cell's candidates.
\<close>

theorem calibrate_by_metric_ascending_ties_counterexample:
  "calibrate_by_metric [True, False, False, True] [4, 3, 2, 1] = Inr (Finite 4)
   \<and> spec_calibrate_by_metric [True, False, False, True] [4, 3, 2, 1] = Inr (Finite 1)
   \<and> f1_at [True, False, False, True] [4, 3, 2, 1] (Finite 4) = 2 / 3
   \<and> f1_at [True, False, False, True] [4, 3, 2, 1] (Finite 1) = 2 / 3
   \<and> roc_curve [True, False, False, True] [4, 3, 2, 1]
       = Inr [Infinity, Finite 4, Finite 2, Finite 1]"
  by (simp add: calibrate_by_metric_def spec_calibrate_by_metric_def roc_curve_example
      sort_example f1_at_def f1_score_def)

subsection \<open>Labels of one class\<close>

lemma f1_at_no_positive:
  assumes "\<forall>l\<in>set y_true. \<not> l"
  shows "f1_at y_true y_score t = 0"
proof -
  have "filter (\<lambda>(t, p). t \<and> p) (zip y_true ps) = []" for ps
    using assms by (auto simp: filter_empty_conv dest: set_zip_leftD)
  then show ?thesis by (simp add: f1_at_def f1_score_def)
qed

lemma f1_at_Infinity: "f1_at y_true y_score Infinity = 0"
proof -
  have "filter (\<lambda>(t, p). t \<and> p) (zip y_true (map (\<lambda>s. False) y_score)) = []"
    by (auto simp: filter_empty_conv dest: set_zip_rightD)
  then show ?thesis by (simp add: f1_at_def f1_score_def)
qed

lemma f1_at_all_positive_all_predicted:
  assumes "length y_true = length y_score" "y_score \<noteq> []"
    and "\<forall>l\<in>set y_true. l" and "\<forall>s\<in>set y_score. t \<le> s"
  shows "f1_at y_true y_score (Finite t) = 1"
proof -
  define ps where "ps = map (\<lambda>s. predict s (Finite t)) y_score"
  have all: "\<forall>x\<in>set (zip y_true ps). x = (True, True)"
  proof
    fix x assume x: "x \<in> set (zip y_true ps)"
    obtain a b where ab: "x = (a, b)" by (cases x)
    have "fst x \<in> set y_true" "snd x \<in> set ps"
      using x unfolding ab by (auto dest: set_zip_leftD set_zip_rightD)
    then have "fst x" "snd x" using assms(3,4) by (auto simp: ps_def)
    then show "x = (True, True)" by (cases x) simp
  qed
  have tp: "filter (\<lambda>(t, p). t \<and> p) (zip y_true ps) = zip y_true ps"
    using all by (auto simp: filter_id_conv)
  have fp: "filter (\<lambda>(t, p). \<not> t \<and> p) (zip y_true ps) = []"
    using all by (auto simp: filter_empty_conv)
  have fn: "filter (\<lambda>(t, p). t \<and> \<not> p) (zip y_true ps) = []"
    using all by (auto simp: filter_empty_conv)
  have n: "length (zip y_true ps) = length y_score" "0 < length y_score"
    using assms(1,2) by (simp_all add: ps_def)
  show ?thesis
    unfolding f1_at_def f1_score_def ps_def[symmetric] tp fp fn using n by simp
qed

lemma f1_at_missed_positive:
  assumes "length y_true = length y_score" and "\<forall>l\<in>set y_true. l"
    and "s \<in> set y_score" and "s < t"
  shows "f1_at y_true y_score (Finite t) < 1"
proof -
  define ps where "ps = map (\<lambda>s. predict s (Finite t)) y_score"
  define tp where "tp = length (filter (\<lambda>(t, p). t \<and> p) (zip y_true ps))"
  define fp where "fp = length (filter (\<lambda>(t, p). \<not> t \<and> p) (zip y_true ps))"
  define fn where "fn = length (filter (\<lambda>(t, p). t \<and> \<not> p) (zip y_true ps))"
  obtain i where i: "i < length y_score" "y_score ! i = s"
    using assms(3) by (auto simp: in_set_conv_nth)
  have "y_true ! i \<in> set y_true" using assms(1) i(1) by simp
  then have "y_true ! i" using assms(2) by blast
  moreover have "\<not> ps ! i" using i assms(4) by (simp add: ps_def)
  moreover have "(y_true ! i, ps ! i) \<in> set (zip y_true ps)"
    using i(1) assms(1) by (auto simp: set_zip ps_def)
  ultimately have "\<exists>x\<in>set (zip y_true ps). (\<lambda>(t, p). t \<and> \<not> p) x" by force
  then have "filter (\<lambda>(t, p). t \<and> \<not> p) (zip y_true ps) \<noteq> []"
    by (simp only: filter_empty_conv) blast
  then have "0 < fn" by (simp add: fn_def)
  then have "real (2 * tp) < real (2 * tp + fp + fn)" by simp
  moreover have "f1_at y_true y_score (Finite t) = real (2 * tp) / real (2 * tp + fp + fn)"
    unfolding f1_at_def f1_score_def Let_def
    unfolding ps_def[symmetric]
    unfolding tp_def[symmetric] fp_def[symmetric] fn_def[symmetric]
    using \<open>0 < fn\<close> by simp
  ultimately show ?thesis
    using \<open>0 < fn\<close> by (simp add: divide_less_eq)
qed

lemma hd_sorted_Min:
  fixes xs :: "'a :: linorder list"
  assumes "sorted xs" "xs \<noteq> []"
  shows "hd xs = Min (set xs)"
proof -
  obtain x rest where xs: "xs = x # rest" using assms(2) by (cases xs) auto
  then have "\<forall>y\<in>set rest. x \<le> y" using assms(1) by simp
  then have "Min (set (x # rest)) = x" by (intro Min_eqI) auto
  then show ?thesis by (simp add: xs)
qed

lemma last_descending_Min:
  fixes ys :: "real list"
  assumes "ys \<noteq> []"
  shows "last (rev (sort (remdups ys))) = Min (set ys)"
proof -
  have "sort (remdups ys) \<noteq> []" using assms by (metis length_0_conv length_sort remdups_eq_nil_iff)
  then have "hd (sort (remdups ys)) = Min (set (sort (remdups ys)))"
    by (intro hd_sorted_Min) simp_all
  then show ?thesis by (simp add: last_rev)
qed

lemma optimal_idxs_last:
  assumes "0 < length fps"
  shows "\<exists>ks. optimal_idxs fps tps = ks @ [length fps - 1] \<and> (\<forall>k\<in>set ks. k < length fps - 1)"
proof -
  define n where "n = length fps"
  have u: "[0..<n] = [0..<n - 1] @ [n - 1]"
    using assms by (metis n_def Suc_diff_1 upt_Suc_append zero_le)
  show ?thesis
  proof (cases "2 < n")
    case True
    define P where "P = (\<lambda>i. i = 0 \<or> i = n - 1 \<or> second_diff fps i \<noteq> 0 \<or> second_diff tps i \<noteq> 0)"
    have "optimal_idxs fps tps = filter P [0..<n]"
      using True by (simp add: optimal_idxs_def n_def[symmetric] P_def)
    also have "\<dots> = filter P [0..<n - 1] @ [n - 1]"
      by (subst u) (simp add: P_def)
    finally show ?thesis unfolding n_def[symmetric] by (intro exI[of _ "filter P [0..<n - 1]"]) simp
  next
    case False
    then have "optimal_idxs fps tps = [0..<n - 1] @ [n - 1]"
      using u by (simp add: optimal_idxs_def n_def[symmetric])
    then show ?thesis unfolding n_def[symmetric] by (intro exI[of _ "[0..<n - 1]"]) simp
  qed
qed

lemma calibrate_by_metric_no_positive:
  assumes "length y_true = length y_score" and "y_score \<noteq> []" and "\<forall>l\<in>set y_true. \<not> l"
  shows "calibrate_by_metric y_true y_score = Inr Infinity"
proof -
  obtain kept where k: "roc_curve y_true y_score = Inr (Infinity # map Finite kept)"
    using roc_curve_ok[OF assms(1,2)] by blast
  define fs where "fs = map (f1_at y_true y_score) (Infinity # map Finite kept)"
  have "fs \<noteq> []" "\<forall>x\<in>set fs. x \<le> hd fs"
    using f1_at_no_positive[OF assms(3)] by (auto simp: fs_def)
  then have a: "np_argmax fs = Inr 0" by (rule np_argmax_all_le_first)
  have c: "calibrate_by_metric y_true y_score =
      (case np_argmax fs of Inl e \<Rightarrow> Inl e | Inr i \<Rightarrow> Inr ((Infinity # map Finite kept) ! i))"
    unfolding calibrate_by_metric_def k fs_def Let_def by simp
  show ?thesis unfolding c a by simp
qed

lemma calibrate_by_metric_all_positive:
  assumes "length y_true = length y_score" and "y_score \<noteq> []" and "\<forall>l\<in>set y_true. l"
  shows "calibrate_by_metric y_true y_score = Inr (Finite (Min (set y_score)))"
proof -
  define thr where "thr = rev (sort (remdups y_score))"
  define fps where "fps = map (fps_at y_true y_score) thr"
  define tps where "tps = map (tps_at y_true y_score) thr"
  define mn where "mn = Min (set y_score)"
  have ne: "thr \<noteq> []"
    using assms(2) by (metis thr_def length_0_conv length_rev length_sort remdups_eq_nil_iff)
  then have n: "0 < length fps" "length fps = length thr" by (simp_all add: fps_def)
  obtain ks where ks: "optimal_idxs fps tps = ks @ [length thr - 1]" "\<forall>k\<in>set ks. k < length thr - 1"
    using optimal_idxs_last[OF n(1), of tps] unfolding n(2) by blast
  have lst: "thr ! (length thr - 1) = mn"
    using last_descending_Min[OF assms(2)] ne by (simp add: thr_def[symmetric] last_conv_nth mn_def)
  define front where "front = Infinity # map (\<lambda>i. Finite (thr ! i)) ks"
  have "roc_curve y_true y_score
      = Inr (Infinity # map (\<lambda>i. Finite (thr ! i)) (optimal_idxs fps tps))"
    unfolding roc_curve_def Let_def thr_def fps_def tps_def using assms(1,2) by simp
  then have r: "roc_curve y_true y_score = Inr (front @ [Finite mn])"
    unfolding ks(1) front_def using lst by simp
  have mem: "mn \<in> set y_score" unfolding mn_def using assms(2) by (intro Min_in) simp_all
  have lo: "\<forall>s\<in>set y_score. mn \<le> s" unfolding mn_def by simp
  have desc: "sorted_wrt (\<lambda>a b. b < a) thr" unfolding thr_def by (rule descending_scores)
  have small: "f1_at y_true y_score t < 1" if "t \<in> set front" for t
  proof (cases t)
    case Infinity
    then show ?thesis by (simp add: f1_at_Infinity)
  next
    case (Finite v)
    have "Finite v \<in> set (map (\<lambda>i. Finite (thr ! i)) ks)"
      using that unfolding Finite front_def by simp
    then obtain k where k: "k \<in> set ks" "v = thr ! k" by auto
    then have "k < length thr - 1" using ks(2) by blast
    then have "mn < v"
      using sorted_wrt_nth_less[OF desc, of k "length thr - 1"] ne lst k(2) by simp
    then show ?thesis
      unfolding Finite using f1_at_missed_positive[OF assms(1,3) mem] by blast
  qed
  have one: "f1_at y_true y_score (Finite mn) = 1"
    by (rule f1_at_all_positive_all_predicted[OF assms lo])
  have "np_argmax (map (f1_at y_true y_score) front @ [1]) = Inr (length (map (f1_at y_true y_score) front))"
    by (rule np_argmax_last_greatest) (use small in auto)
  then have a: "np_argmax (map (f1_at y_true y_score) front @ [f1_at y_true y_score (Finite mn)])
      = Inr (length front)"
    by (simp add: one)
  have c: "calibrate_by_metric y_true y_score =
      (case np_argmax (map (f1_at y_true y_score) front @ [f1_at y_true y_score (Finite mn)]) of
         Inl e \<Rightarrow> Inl e | Inr i \<Rightarrow> Inr ((front @ [Finite mn]) ! i))"
    unfolding calibrate_by_metric_def r Let_def by simp
  show ?thesis unfolding c a mn_def[symmetric] by simp
qed

text \<open>
  Claim C8, as the code has it. The calibration lines check nothing about the labels and
  fail on no pair of non-empty lists of equal length. When every label is 0 each candidate
  has F1 score 0 and the first candidate, \<^verbatim>\<open>np.inf\<close>, is returned; when every label is 1
  the least observed score is returned (its F1 score is 1, every other candidate's is
  smaller).
\<close>

theorem calibrate_by_metric_single_class_returns_threshold:
  assumes "length y_true = length y_score" and "y_score \<noteq> []"
  shows "(\<exists>t. calibrate_by_metric y_true y_score = Inr t)
    \<and> ((\<forall>l\<in>set y_true. \<not> l) \<longrightarrow> calibrate_by_metric y_true y_score = Inr Infinity)
    \<and> ((\<forall>l\<in>set y_true. l) \<longrightarrow>
          calibrate_by_metric y_true y_score = Inr (Finite (Min (set y_score))))"
proof -
  obtain kept where k: "roc_curve y_true y_score = Inr (Infinity # map Finite kept)"
    using roc_curve_ok[OF assms] by blast
  obtain i where "np_argmax (map (f1_at y_true y_score) (Infinity # map Finite kept)) = Inr i"
    using np_argmax_spec[of "map (f1_at y_true y_score) (Infinity # map Finite kept)"] by auto
  then have "\<exists>t. calibrate_by_metric y_true y_score = Inr t"
    by (simp add: calibrate_by_metric_def k)
  then show ?thesis
    using calibrate_by_metric_no_positive[OF assms] calibrate_by_metric_all_positive[OF assms]
    by blast
qed

theorem calibrate_by_metric_single_class_returns_threshold_witness:
  "length [False, False] = length [1, 2 :: real] \<and> [1, 2 :: real] \<noteq> []
   \<and> calibrate_by_metric [False, False] [1, 2] = Inr Infinity
   \<and> calibrate_by_metric [True, True] [1, 2] = Inr (Finite 1)"
  using calibrate_by_metric_single_class_returns_threshold[of "[False, False]" "[1, 2]"]
    calibrate_by_metric_single_class_returns_threshold[of "[True, True]" "[1, 2]"]
  by simp

text \<open>
  The claim as stated, that labels of one class make the calibration fail, is refuted by
  two images of scores 1 and 2: labelled 0 and 0 they give the threshold \<^verbatim>\<open>np.inf\<close>,
  labelled 1 and 1 the threshold 1.
\<close>

theorem calibrate_by_metric_single_class_counterexample:
  "calibrate_by_metric [False, False] [1, 2] = Inr Infinity
   \<and> calibrate_by_metric [True, True] [1, 2] = Inr (Finite 1)"
  by (simp add: calibrate_by_metric_def roc_curve_def f1_at_def f1_score_def tps_at_def
      fps_at_def optimal_idxs_def)

end
